theory Spec2Isabelle
  imports Complex_Main
begin

section \<open>Direct-stiffness beam solver of \<open>simple_fem_bridge_demo.py\<close>\<close>

text \<open>
  The classes \<open>SimpleFEMBeam\<close> and \<open>ContinuousBridgeFEM\<close> are embedded as HOL functions.
  Python's \<open>float\<close> and numpy's \<open>float64\<close> are idealised as \<^typ>\<open>real\<close>: every arithmetic
  operation is exact, so rounding, overflow to \<open>inf\<close> and \<open>nan\<close> are outside the model.
  In particular a division by a zero length is \<open>inf\<close>/\<open>nan\<close> in numpy and \<open>0\<close> in HOL;
  the model follows the code on elements of positive length only.
  Node and element ids are Python \<open>int\<close>s, so they are \<^typ>\<open>int\<close> here, and every
  subscript goes through \<open>py_index\<close>, which wraps a negative index and raises
  \<open>IndexError\<close> out of range, as Python lists and numpy arrays do.
  Exceptions are values of the type \<open>error\<close>; the \<open>print\<close> calls are dropped.
\<close>

datatype error = IndexError | LinAlgError | AttributeError

type_synonym vec = "real list"
type_synonym mat = "real list list"

subsection \<open>Subscripts and array helpers\<close>

definition py_index :: "nat \<Rightarrow> int \<Rightarrow> error + nat" where
  "py_index n i =
     (if 0 \<le> i \<and> i < int n then Inr (nat i)
      else if - int n \<le> i \<and> i < 0 then Inr (nat (int n + i))
      else Inl IndexError)"

text \<open>\<open>np.zeros(n)\<close> and \<open>np.zeros((r, c))\<close>.\<close>

definition zeros :: "nat \<Rightarrow> vec" where
  "zeros n = replicate n 0"

definition zeros2 :: "nat \<Rightarrow> nat \<Rightarrow> mat" where
  "zeros2 r c = replicate r (zeros c)"

text \<open>\<open>k[i, j] = v\<close> with literal indices inside the array.\<close>

definition mat_set :: "mat \<Rightarrow> nat \<Rightarrow> nat \<Rightarrow> real \<Rightarrow> mat" where
  "mat_set k i j v = k[i := (k ! i)[j := v]]"

text \<open>\<open>F[i] += v\<close> and \<open>K[i, j] += v\<close> on numpy arrays, with the subscripts checked.\<close>

definition vec_add_at :: "vec \<Rightarrow> int \<Rightarrow> real \<Rightarrow> error + vec" where
  "vec_add_at F i v =
     (case py_index (length F) i of
        Inl e \<Rightarrow> Inl e
      | Inr a \<Rightarrow> Inr (F[a := F ! a + v]))"

definition mat_add_at :: "mat \<Rightarrow> int \<Rightarrow> int \<Rightarrow> real \<Rightarrow> error + mat" where
  "mat_add_at K i j v =
     (case py_index (length K) i of
        Inl e \<Rightarrow> Inl e
      | Inr a \<Rightarrow>
          (case py_index (length (K ! a)) j of
             Inl e \<Rightarrow> Inl e
           | Inr b \<Rightarrow> Inr (K[a := (K ! a)[b := K ! a ! b + v]])))"

text \<open>A \<open>for\<close> loop whose body may raise: the first exception ends the loop.\<close>

fun for_loop :: "('a \<Rightarrow> 's \<Rightarrow> error + 's) \<Rightarrow> 'a list \<Rightarrow> 's \<Rightarrow> error + 's" where
  "for_loop body [] s = Inr s"
| "for_loop body (x # xs) s =
     (case body x s of Inl e \<Rightarrow> Inl e | Inr s' \<Rightarrow> for_loop body xs s')"

text \<open>Inner product, matrix-vector product \<open>K @ U\<close> and the difference of two vectors.\<close>

fun dot :: "vec \<Rightarrow> vec \<Rightarrow> real" where
  "dot (a # as) (b # bs) = a * b + dot as bs"
| "dot _ _ = 0"

definition mat_vec :: "mat \<Rightarrow> vec \<Rightarrow> vec" where
  "mat_vec K U = map (\<lambda>row. dot row U) K"

definition vec_sub :: "vec \<Rightarrow> vec \<Rightarrow> vec" where
  "vec_sub a b = map (\<lambda>(x, y). x - y) (zip a b)"

subsection \<open>\<open>SimpleFEMBeam\<close>\<close>

record SimpleFEMBeam =
  beam_L :: real
  beam_E :: real
  beam_A :: real
  beam_I :: real

definition stiffness_matrix :: "SimpleFEMBeam \<Rightarrow> mat" where
  "stiffness_matrix beam =
     (let L = beam_L beam; E = beam_E beam; A = beam_A beam; I = beam_I beam;
          k = zeros2 6 6;
          k = mat_set k 0 0 (E * A / L);
          k = mat_set k 0 3 (- E * A / L);
          k = mat_set k 3 0 (- E * A / L);
          k = mat_set k 3 3 (E * A / L);
          EI_L3 = 12 * E * I / (L ^ 3);
          EI_L2 = 6 * E * I / (L ^ 2);
          EI_L = 4 * E * I / L;
          EI_L_2 = 2 * E * I / L;
          k = mat_set k 1 1 EI_L3;
          k = mat_set k 1 2 EI_L2;
          k = mat_set k 1 4 (- EI_L3);
          k = mat_set k 1 5 EI_L2;
          k = mat_set k 2 1 EI_L2;
          k = mat_set k 2 2 EI_L;
          k = mat_set k 2 4 (- EI_L2);
          k = mat_set k 2 5 EI_L_2;
          k = mat_set k 4 1 (- EI_L3);
          k = mat_set k 4 2 (- EI_L2);
          k = mat_set k 4 4 EI_L3;
          k = mat_set k 4 5 (- EI_L2);
          k = mat_set k 5 1 EI_L2;
          k = mat_set k 5 2 EI_L_2;
          k = mat_set k 5 4 (- EI_L2);
          k = mat_set k 5 5 EI_L
      in k)"

definition equivalent_nodal_loads :: "SimpleFEMBeam \<Rightarrow> real \<Rightarrow> vec" where
  "equivalent_nodal_loads beam q =
     (let L = beam_L beam;
          f = zeros 6;
          f = f[1 := q * L / 2];
          f = f[2 := q * L ^ 2 / 12];
          f = f[4 := q * L / 2];
          f = f[5 := - q * L ^ 2 / 12]
      in f)"

subsection \<open>\<open>ContinuousBridgeFEM\<close>: the model and its construction\<close>

text \<open>
  An element is the dictionary built by \<open>add_element\<close>; a support carries the node id and
  the list \<open>[ux, uy, rz]\<close> of its three flags, read for their truth value; a load is one
  of the two dictionaries built by \<open>add_distributed_load\<close> and \<open>add_point_load\<close>.
  The attributes \<open>displacements\<close> and \<open>reactions\<close> do not exist until \<open>solve\<close> has set
  them: \<open>None\<close> stands for the missing attribute. The dictionaries \<open>material\<close> and
  \<open>section\<close> are never read or written after \<open>__init__\<close> and are left out.
\<close>

record element =
  el_nodes :: "int \<times> int"
  el_length :: real
  el_E :: real
  el_A :: real
  el_I :: real

record support =
  sup_node :: int
  sup_constraints :: "bool \<times> bool \<times> bool"

datatype load = Distributed int real | Point int real real real

record ContinuousBridgeFEM =
  nodes :: "(real \<times> real) list"
  elements :: "element list"
  supports :: "support list"
  loads :: "load list"
  displacements :: "vec option"
  reactions :: "vec option"

definition init :: ContinuousBridgeFEM where
  "init = \<lparr>nodes = [], elements = [], supports = [], loads = [],
           displacements = None, reactions = None\<rparr>"

definition add_node :: "ContinuousBridgeFEM \<Rightarrow> real \<Rightarrow> real \<Rightarrow> ContinuousBridgeFEM \<times> int" where
  "add_node m x y = (m\<lparr>nodes := nodes m @ [(x, y)]\<rparr>, int (length (nodes m)))"

definition add_element ::
  "ContinuousBridgeFEM \<Rightarrow> int \<Rightarrow> int \<Rightarrow> real \<Rightarrow> real \<Rightarrow> real \<Rightarrow> error + ContinuousBridgeFEM \<times> int" where
  "add_element m node1 node2 E A I =
     (case py_index (length (nodes m)) node1 of
        Inl e \<Rightarrow> Inl e
      | Inr i1 \<Rightarrow>
          (case py_index (length (nodes m)) node2 of
             Inl e \<Rightarrow> Inl e
           | Inr i2 \<Rightarrow>
               (let (x1, y1) = nodes m ! i1;
                    (x2, y2) = nodes m ! i2;
                    len = sqrt ((x2 - x1) ^ 2 + (y2 - y1) ^ 2);
                    el = \<lparr>el_nodes = (node1, node2), el_length = len,
                          el_E = E, el_A = A, el_I = I\<rparr>
                in Inr (m\<lparr>elements := elements m @ [el]\<rparr>, int (length (elements m))))))"

definition add_support :: "ContinuousBridgeFEM \<Rightarrow> int \<Rightarrow> bool \<times> bool \<times> bool \<Rightarrow> ContinuousBridgeFEM" where
  "add_support m node_id constraints =
     m\<lparr>supports := supports m @ [\<lparr>sup_node = node_id, sup_constraints = constraints\<rparr>]\<rparr>"

definition add_distributed_load :: "ContinuousBridgeFEM \<Rightarrow> int \<Rightarrow> real \<Rightarrow> ContinuousBridgeFEM" where
  "add_distributed_load m element_id q = m\<lparr>loads := loads m @ [Distributed element_id q]\<rparr>"

definition add_point_load :: "ContinuousBridgeFEM \<Rightarrow> int \<Rightarrow> real \<Rightarrow> real \<Rightarrow> real \<Rightarrow> ContinuousBridgeFEM" where
  "add_point_load m node_id fx fy mz = m\<lparr>loads := loads m @ [Point node_id fx fy mz]\<rparr>"

subsection \<open>Assembly\<close>

definition beam_of :: "element \<Rightarrow> SimpleFEMBeam" where
  "beam_of el = \<lparr>beam_L = el_length el, beam_E = el_E el, beam_A = el_A el, beam_I = el_I el\<rparr>"

definition dof_map :: "element \<Rightarrow> int list" where
  "dof_map el =
     (let (node1, node2) = el_nodes el
      in [node1 * 3, node1 * 3 + 1, node1 * 3 + 2, node2 * 3, node2 * 3 + 1, node2 * 3 + 2])"

text \<open>The body of the two nested loops over \<open>range(6)\<close>, and one element of the outer loop.\<close>

definition scatter_row :: "int list \<Rightarrow> mat \<Rightarrow> nat \<Rightarrow> mat \<Rightarrow> error + mat" where
  "scatter_row dm k_local m K =
     for_loop (\<lambda>n K. mat_add_at K (dm ! m) (dm ! n) (k_local ! m ! n)) [0..<6] K"

definition assemble_element :: "element \<Rightarrow> mat \<Rightarrow> error + mat" where
  "assemble_element el K =
     (let k_local = stiffness_matrix (beam_of el); dm = dof_map el
      in for_loop (scatter_row dm k_local) [0..<6] K)"

definition assemble_load :: "element list \<Rightarrow> load \<Rightarrow> vec \<Rightarrow> error + vec" where
  "assemble_load els ld F =
     (case ld of
        Distributed element_id q \<Rightarrow>
          (case py_index (length els) element_id of
             Inl e \<Rightarrow> Inl e
           | Inr a \<Rightarrow>
               (let el = els ! a;
                    f_equiv = equivalent_nodal_loads (beam_of el) q;
                    dm = dof_map el
                in for_loop (\<lambda>m F. vec_add_at F (dm ! m) (f_equiv ! m)) [0..<6] F))
      | Point node_id fx fy mz \<Rightarrow>
          (case vec_add_at F (node_id * 3) fx of
             Inl e \<Rightarrow> Inl e
           | Inr F1 \<Rightarrow>
               (case vec_add_at F1 (node_id * 3 + 1) fy of
                  Inl e \<Rightarrow> Inl e
                | Inr F2 \<Rightarrow> vec_add_at F2 (node_id * 3 + 2) mz)))"

definition assemble_global_matrix :: "ContinuousBridgeFEM \<Rightarrow> error + mat \<times> vec" where
  "assemble_global_matrix m =
     (let n_nodes = length (nodes m);
          n_dof = n_nodes * 3
      in case for_loop assemble_element (elements m) (zeros2 n_dof n_dof) of
           Inl e \<Rightarrow> Inl e
         | Inr K_global \<Rightarrow>
             (case for_loop (assemble_load (elements m)) (loads m) (zeros n_dof) of
                Inl e \<Rightarrow> Inl e
              | Inr F_global \<Rightarrow> Inr (K_global, F_global)))"

subsection \<open>Boundary conditions\<close>

text \<open>
  \<open>enumerate(constraints)\<close> yields the three flags with the offsets 0, 1, 2. A flagged
  degree of freedom is removed from \<open>free_dof\<close> only if it is (still) in the list.
\<close>

definition remove_dof :: "int \<Rightarrow> bool \<Rightarrow> int \<Rightarrow> int list \<Rightarrow> int list" where
  "remove_dof node_id constrained i free_dof =
     (if constrained then
        (let dof = node_id * 3 + i
         in if dof \<in> set free_dof then remove1 dof free_dof else free_dof)
      else free_dof)"

definition remove_support :: "support \<Rightarrow> int list \<Rightarrow> int list" where
  "remove_support s free_dof =
     (let node_id = sup_node s; (c0, c1, c2) = sup_constraints s
      in remove_dof node_id c2 2 (remove_dof node_id c1 1 (remove_dof node_id c0 0 free_dof)))"

definition free_dofs :: "support list \<Rightarrow> nat \<Rightarrow> int list" where
  "free_dofs sups n_dof = fold remove_support sups (map int [0..<n_dof])"

text \<open>
  \<open>K[np.ix_(rows, cols)]\<close> and \<open>F[idx]\<close>. Every index that \<open>apply_boundary_conditions\<close>
  passes comes from \<open>range(n_dof)\<close>, so these subscripts cannot raise there.
\<close>

definition submatrix :: "mat \<Rightarrow> int list \<Rightarrow> int list \<Rightarrow> mat" where
  "submatrix K rows cols = map (\<lambda>i. map (\<lambda>j. K ! nat i ! nat j) cols) rows"

definition subvector :: "vec \<Rightarrow> int list \<Rightarrow> vec" where
  "subvector F idx = map (\<lambda>i. F ! nat i) idx"

definition apply_boundary_conditions ::
  "ContinuousBridgeFEM \<Rightarrow> mat \<Rightarrow> vec \<Rightarrow> mat \<times> vec \<times> int list" where
  "apply_boundary_conditions m K F =
     (let n_dof = length F;
          free_dof = free_dofs (supports m) n_dof;
          K_reduced = submatrix K free_dof free_dof;
          F_reduced = subvector F free_dof
      in (K_reduced, F_reduced, free_dof))"

subsection \<open>The dense linear solve\<close>

text \<open>
  \<open>np.linalg.solve\<close> is LAPACK's \<open>gesv\<close>: elimination with partial pivoting (the pivot
  of a column is its first entry of largest absolute value, and its row is swapped with
  the current one), then substitution. It raises \<open>LinAlgError\<close> when the matrix is not
  square and when a pivot is exactly zero. Here the elimination runs in exact arithmetic
  over the rows of the augmented matrix: \<open>linalg_solve\<close> is the exact solve that the
  float64 routine approximates, not the routine itself. The two part where rounding
  decides: on a singular matrix the float64 pivots need not round to zero, so numpy can
  return a meaningless vector where the exact elimination raises, and on a regular
  matrix numpy's solution leaves a residual of the order of the rounding error. What is
  proved below of \<open>free_dofs\<close>, \<open>scatter_free\<close>, the assembly and the accessors uses
  nothing of the solver; what is proved of the solver itself is marked as holding in
  exact arithmetic only.
\<close>

type_synonym row = "vec \<times> real"

fun argmax_abs :: "vec \<Rightarrow> nat" where
  "argmax_abs [] = 0"
| "argmax_abs (x # xs) =
     (if xs = [] then 0
      else (let j = argmax_abs xs in if \<bar>xs ! j\<bar> > \<bar>x\<bar> then Suc j else 0))"

definition lead :: "row \<Rightarrow> real" where
  "lead r = hd (fst r)"

definition eliminate :: "row \<Rightarrow> row \<Rightarrow> row" where
  "eliminate piv r =
     (let f = lead r / lead piv
      in (map (\<lambda>(c, p). c - f * p) (zip (tl (fst r)) (tl (fst piv))), snd r - f * snd piv))"

text \<open>
  The index of the pivot row, the rows left once the pivot row has been swapped to the
  top and taken off, and the unknown that the pivot row gives back from the others.
\<close>

definition pivot_index :: "row list \<Rightarrow> nat" where
  "pivot_index rows = argmax_abs (map lead rows)"

definition remaining_rows :: "row list \<Rightarrow> nat \<Rightarrow> row list" where
  "remaining_rows rows p = tl (rows[p := hd rows])"

definition back_substitute :: "row \<Rightarrow> vec \<Rightarrow> real" where
  "back_substitute piv xs = (snd piv - dot (tl (fst piv)) xs) / lead piv"

function gauss :: "row list \<Rightarrow> error + vec" where
  "gauss [] = Inr []"
| "gauss (r # rs) =
     (let rows = r # rs;
          p = pivot_index rows;
          piv = rows ! p
      in if lead piv = 0 then Inl LinAlgError
         else (case gauss (map (eliminate piv) (remaining_rows rows p)) of
                 Inl e \<Rightarrow> Inl e
               | Inr xs \<Rightarrow> Inr (back_substitute piv xs # xs)))"
  by pat_completeness auto
termination
proof (relation "measure length")
  show "wf (measure length)"
    by simp
next
  fix r :: row and rs rows p piv
  assume "rows = r # rs"
  then have "length (map (eliminate piv) (remaining_rows rows p)) = length rs"
    by (simp add: remaining_rows_def del: list_update.simps)
  then show "(map (eliminate piv) (remaining_rows rows p), r # rs) \<in> measure length"
    by simp
qed

definition linalg_solve :: "mat \<Rightarrow> vec \<Rightarrow> error + vec" where
  "linalg_solve a b =
     (if list_all (\<lambda>row. length row = length a) a \<and> length b = length a
      then gauss (zip a b) else Inl LinAlgError)"

subsection \<open>\<open>solve\<close> and \<open>get_support_reactions\<close>\<close>

text \<open>
  \<open>solve\<close> returns the model after the call together with what the call returned or
  raised. The two attributes are assigned in the last two statements, after everything
  that can raise, so a call that raises leaves the model as it was.
\<close>

definition scatter_free :: "int list \<Rightarrow> vec \<Rightarrow> nat \<Rightarrow> vec" where
  "scatter_free free_dof U_reduced n_dof =
     fold (\<lambda>(i, dof) U. U[nat dof := U_reduced ! i]) (enumerate 0 free_dof) (zeros n_dof)"

definition solve :: "ContinuousBridgeFEM \<Rightarrow> ContinuousBridgeFEM \<times> (error + vec \<times> vec)" where
  "solve m =
     (case assemble_global_matrix m of
        Inl e \<Rightarrow> (m, Inl e)
      | Inr (K_global, F_global) \<Rightarrow>
          (let (K_reduced, F_reduced, free_dof) = apply_boundary_conditions m K_global F_global
           in case linalg_solve K_reduced F_reduced of
                Inl e \<Rightarrow> (m, Inl e)
              | Inr U_reduced \<Rightarrow>
                  (let n_dof = length F_global;
                       U_global = scatter_free free_dof U_reduced n_dof;
                       R_global = vec_sub (mat_vec K_global U_global) F_global
                   in (m\<lparr>displacements := Some U_global, reactions := Some R_global\<rparr>,
                       Inr (U_global, R_global)))))"

record reaction =
  r_node :: int
  Rx :: real
  Ry :: real
  Mz :: real

text \<open>
  Reading an attribute that was never assigned raises \<open>AttributeError\<close>;
  \<open>self.reactions[i]\<close> is read only when the flag in front of it is true.
\<close>

definition get_attr :: "vec option \<Rightarrow> error + vec" where
  "get_attr a = (case a of None \<Rightarrow> Inl AttributeError | Some v \<Rightarrow> Inr v)"

definition np_get :: "vec \<Rightarrow> int \<Rightarrow> error + real" where
  "np_get R i = (case py_index (length R) i of Inl e \<Rightarrow> Inl e | Inr a \<Rightarrow> Inr (R ! a))"

definition masked_reaction :: "vec option \<Rightarrow> bool \<Rightarrow> int \<Rightarrow> error + real" where
  "masked_reaction rs constrained i =
     (if constrained then
        (case get_attr rs of Inl e \<Rightarrow> Inl e | Inr R \<Rightarrow> np_get R i)
      else Inr 0)"

definition support_reaction :: "vec option \<Rightarrow> support \<Rightarrow> error + reaction" where
  "support_reaction rs s =
     (let node_id = sup_node s; (c0, c1, c2) = sup_constraints s
      in case masked_reaction rs c0 (node_id * 3) of
           Inl e \<Rightarrow> Inl e
         | Inr rx \<Rightarrow>
             (case masked_reaction rs c1 (node_id * 3 + 1) of
                Inl e \<Rightarrow> Inl e
              | Inr ry \<Rightarrow>
                  (case masked_reaction rs c2 (node_id * 3 + 2) of
                     Inl e \<Rightarrow> Inl e
                   | Inr mz \<Rightarrow> Inr \<lparr>r_node = node_id, Rx = rx, Ry = ry, Mz = mz\<rparr>)))"

text \<open>
  One turn of the loop of \<open>get_support_reactions\<close>: the dictionary \<open>f x\<close> is built, which
  may raise, and appended to the summary.
\<close>

definition collect :: "('a \<Rightarrow> error + 'b) \<Rightarrow> 'a \<Rightarrow> 'b list \<Rightarrow> error + 'b list" where
  "collect f x acc = (case f x of Inl e \<Rightarrow> Inl e | Inr r \<Rightarrow> Inr (acc @ [r]))"

definition get_support_reactions :: "ContinuousBridgeFEM \<Rightarrow> error + reaction list" where
  "get_support_reactions m =
     for_loop (collect (support_reaction (reactions m))) (supports m) []"

subsection \<open>Vocabulary of the properties\<close>

text \<open>
  The degrees of freedom that a support, and a list of supports, flag as constrained:
  \<open>node_id * 3 + i\<close> for each flag \<open>i\<close> that is set.
\<close>

definition support_dofs :: "support \<Rightarrow> int list" where
  "support_dofs s =
     (let node_id = sup_node s; (c0, c1, c2) = sup_constraints s
      in (if c0 then [node_id * 3 + 0] else []) @
         (if c1 then [node_id * 3 + 1] else []) @
         (if c2 then [node_id * 3 + 2] else []))"

definition constrained_dofs :: "support list \<Rightarrow> int list" where
  "constrained_dofs sups = concat (map support_dofs sups)"

text \<open>An \<open>n\<close> by \<open>n\<close> array.\<close>

definition square_mat :: "nat \<Rightarrow> mat \<Rightarrow> bool" where
  "square_mat n K \<longleftrightarrow> length K = n \<and> list_all (\<lambda>row. length row = n) K"

text \<open>
  The displacement vector of a rigid translation along the axis: one at the axial degree
  of freedom of every node, zero at the others.
\<close>

definition axial_translation :: "nat \<Rightarrow> vec" where
  "axial_translation n_dof = map (\<lambda>d. if d mod 3 = 0 then 1 else 0) [0..<n_dof]"

text \<open>
  A worked model: a beam of length 2 with \<open>E = A = I = 1\<close>, a pin at node 0, a roller at
  node 1 and the uniform load \<open>q = 3\<close>.
\<close>

definition example_beam :: ContinuousBridgeFEM where
  "example_beam =
     \<lparr>nodes = [(0, 0), (2, 0)],
      elements = [\<lparr>el_nodes = (0, 1), el_length = 2, el_E = 1, el_A = 1, el_I = 1\<rparr>],
      supports = [\<lparr>sup_node = 0, sup_constraints = (True, True, False)\<rparr>,
                  \<lparr>sup_node = 1, sup_constraints = (False, True, False)\<rparr>],
      loads = [Distributed 0 3], displacements = None, reactions = None\<rparr>"

section \<open>Properties\<close>

subsection \<open>Subscripts, loops and the errors of assembly\<close>

lemma py_index_bound: "py_index n i = Inr a \<Longrightarrow> a < n"
  by (auto simp: py_index_def split: if_splits)

lemma py_index_nonneg: "0 \<le> i \<Longrightarrow> i < int n \<Longrightarrow> py_index n i = Inr (nat i)"
  by (simp add: py_index_def)

lemma py_index_out: "i < - int n \<or> int n \<le> i \<Longrightarrow> py_index n i = Inl IndexError"
  by (auto simp: py_index_def)

lemma py_index_error: "py_index n i = Inl e \<Longrightarrow> e = IndexError"
  by (auto simp: py_index_def split: if_splits)

lemma vec_add_at_length: "vec_add_at F i v = Inr F' \<Longrightarrow> length F' = length F"
  by (auto simp: vec_add_at_def split: sum.splits)

lemma vec_add_at_error: "vec_add_at F i v = Inl e \<Longrightarrow> e = IndexError"
  by (auto simp: vec_add_at_def split: sum.splits dest: py_index_error)

lemma vec_add_at_out: "i < - int (length F) \<or> int (length F) \<le> i \<Longrightarrow> vec_add_at F i v = Inl IndexError"
  by (simp add: vec_add_at_def py_index_out)

lemma for_loop_error:
  assumes "\<And>x s e. body x s = Inl e \<Longrightarrow> e = err"
  shows "for_loop body xs s = Inl e \<Longrightarrow> e = err"
  by (induction xs arbitrary: s) (auto split: sum.splits dest: assms)

lemma for_loop_invariant:
  "P s \<Longrightarrow> for_loop body xs s = Inr s' \<Longrightarrow>
   (\<And>x t t'. x \<in> set xs \<Longrightarrow> P t \<Longrightarrow> body x t = Inr t' \<Longrightarrow> P t') \<Longrightarrow> P s'"
proof (induction xs arbitrary: s)
  case Nil
  then show ?case by simp
next
  case (Cons x xs)
  from Cons.prems(2) obtain s1 where b: "body x s = Inr s1" and r: "for_loop body xs s1 = Inr s'"
    by (auto split: sum.splits)
  have p1: "P s1"
    using Cons.prems(3)[of x s s1] Cons.prems(1) b by simp
  have step: "\<And>y t t'. y \<in> set xs \<Longrightarrow> P t \<Longrightarrow> body y t = Inr t' \<Longrightarrow> P t'"
  proof -
    fix y t t'
    assume "y \<in> set xs" "P t" "body y t = Inr t'"
    then show "P t'"
      using Cons.prems(3)[of y t t'] by simp
  qed
  show ?case
    by (rule Cons.IH[OF p1 r step])
qed

lemma for_loop_raises:
  assumes inv: "\<And>x s s'. P s \<Longrightarrow> body x s = Inr s' \<Longrightarrow> P s'"
    and bad: "\<And>s. P s \<Longrightarrow> \<exists>e. body b s = Inl e"
  shows "b \<in> set xs \<Longrightarrow> P s \<Longrightarrow> \<exists>e. for_loop body xs s = Inl e"
proof (induction xs arbitrary: s)
  case Nil
  then show ?case by simp
next
  case (Cons x xs)
  show ?case
  proof (cases "body x s")
    case (Inl e)
    then show ?thesis by simp
  next
    case (Inr s1)
    then have p1: "P s1" using inv Cons.prems(2) by blast
    show ?thesis
    proof (cases "b = x")
      case True
      then show ?thesis using bad[OF Cons.prems(2)] Inr by simp
    next
      case False
      then have "b \<in> set xs" using Cons.prems(1) by simp
      then show ?thesis using Cons.IH[OF _ p1] Inr by simp
    qed
  qed
qed

lemma vec_loop_length:
  "for_loop (\<lambda>m F. vec_add_at F (g m) (h m)) ms F = Inr F' \<Longrightarrow> length F' = length F"
  by (rule for_loop_invariant[where P="\<lambda>G. length G = length F"])
     (auto dest: vec_add_at_length)

lemma assemble_load_length: "assemble_load els ld F = Inr F' \<Longrightarrow> length F' = length F"
  by (cases ld)
     (auto simp: assemble_load_def Let_def split: sum.splits
        dest!: vec_add_at_length vec_loop_length)

lemma assemble_load_error: "assemble_load els ld F = Inl e \<Longrightarrow> e = IndexError"
  by (cases ld)
    (auto simp: assemble_load_def Let_def split: sum.splits
      dest: py_index_error vec_add_at_error for_loop_error[where err=IndexError, rotated])


lemma assemble_load_out:
  assumes "length F = 3 * N"
  shows "n < - int N \<or> int N \<le> n \<Longrightarrow> assemble_load els (Point n fx fy mz) F = Inl IndexError"
    and "eid < - int (length els) \<or> int (length els) \<le> eid \<Longrightarrow>
         assemble_load els (Distributed eid q) F = Inl IndexError"
  using assms by (auto simp: assemble_load_def vec_add_at_out py_index_out)

lemma assemble_loads_out:
  assumes len: "length F = 3 * N"
    and bad: "\<And>G. length G = 3 * N \<Longrightarrow> assemble_load els ld G = Inl IndexError"
    and mem: "ld \<in> set lds"
  shows "for_loop (assemble_load els) lds F = Inl IndexError"
proof -
  have "\<exists>e. for_loop (assemble_load els) lds F = Inl e"
    by (rule for_loop_raises[where P="\<lambda>G. length G = 3 * N" and b=ld])
       (auto simp: len mem bad dest: assemble_load_length)
  then show ?thesis
    using for_loop_error[of "assemble_load els" IndexError lds F] assemble_load_error by blast
qed

lemma mat_add_at_error: "mat_add_at K i j v = Inl e \<Longrightarrow> e = IndexError"
  by (auto simp: mat_add_at_def split: sum.splits dest: py_index_error)

lemma assemble_element_error: "assemble_element el K = Inl e \<Longrightarrow> e = IndexError"
  unfolding assemble_element_def Let_def scatter_row_def
  by (erule for_loop_error[rotated], erule for_loop_error[rotated], erule mat_add_at_error)

lemma elements_loop_error: "for_loop assemble_element els K = Inl e \<Longrightarrow> e = IndexError"
  by (erule for_loop_error[rotated]) (erule assemble_element_error)

lemma loads_loop_error: "for_loop (assemble_load els) lds F = Inl e \<Longrightarrow> e = IndexError"
  by (erule for_loop_error[rotated]) (erule assemble_load_error)

lemma assemble_global_matrix_error: "assemble_global_matrix m = Inl e \<Longrightarrow> e = IndexError"
  by (auto simp: assemble_global_matrix_def Let_def split: sum.splits
      dest: elements_loop_error loads_loop_error)

lemma solve_bad_load:
  assumes bad: "\<And>G. length G = 3 * length (nodes m) \<Longrightarrow> assemble_load (elements m) ld G = Inl IndexError"
    and mem: "ld \<in> set (loads m)"
  shows "solve m = (m, Inl IndexError)"
proof -
  have "for_loop (assemble_load (elements m)) (loads m) (zeros (length (nodes m) * 3)) = Inl IndexError"
    by (rule assemble_loads_out[where N="length (nodes m)" and ld=ld])
       (auto simp: zeros_def bad mem)
  then have "\<exists>e. assemble_global_matrix m = Inl e"
    by (auto simp: assemble_global_matrix_def Let_def split: sum.splits)
  then have "assemble_global_matrix m = Inl IndexError"
    using assemble_global_matrix_error by blast
  then show ?thesis
    by (simp add: solve_def)
qed


subsection \<open>Equivalent nodal loads\<close>

text \<open>
  C5. For every beam element and every uniform transverse load \<open>q\<close>, the equivalent
  nodal load vector is \<open>[0, qL/2, qL\<^sup>2/12, 0, qL/2, -qL\<^sup>2/12]\<close>: the shear \<open>qL/2\<close> at the
  transverse degree of freedom of both nodes, the moment \<open>+qL\<^sup>2/12\<close> at the rotation of
  node 1 and \<open>-qL\<^sup>2/12\<close> at the rotation of node 2, and zero at both axial degrees of
  freedom. The length need not even be positive.
\<close>

theorem equivalent_nodal_loads_formula:
  "equivalent_nodal_loads beam q =
     [0, q * beam_L beam / 2, q * (beam_L beam)\<^sup>2 / 12,
      0, q * beam_L beam / 2, - (q * (beam_L beam)\<^sup>2 / 12)]"
  by (simp add: equivalent_nodal_loads_def zeros_def Let_def eval_nat_numeral)

theorem equivalent_nodal_loads_formula_witness:
  "equivalent_nodal_loads \<lparr>beam_L = 20, beam_E = 34500000000, beam_A = 0.45, beam_I = 0.082\<rparr> (- 26250) =
     [0, - 262500, - 875000, 0, - 262500, 875000]"
  using equivalent_nodal_loads_formula
    [of "\<lparr>beam_L = 20, beam_E = 34500000000, beam_A = 0.45, beam_I = 0.082\<rparr>" "- 26250"]
  by simp

subsection \<open>References to nodes and elements that do not exist\<close>

text \<open>
  C7, as the specification states it, fails: \<open>add_point_load\<close> on a model without nodes
  accepts the node id 5, records the load, and the \<open>IndexError\<close> is raised by \<open>solve\<close>.
\<close>

theorem add_point_load_unchecked_counterexample:
  "loads (add_point_load init 5 0 (- 1) 0) = [Point 5 0 (- 1) 0] \<and>
   solve (add_point_load init 5 0 (- 1) 0) = (add_point_load init 5 0 (- 1) 0, Inl IndexError)"
  by (simp add: add_point_load_def init_def solve_def assemble_global_matrix_def zeros2_def zeros_def
      assemble_load_def vec_add_at_def py_index_def)

text \<open>
  C7, amended. With \<open>N\<close> nodes, \<open>add_element\<close> raises \<open>IndexError\<close> at once when one of
  its node ids lies outside \<open>-N .. N-1\<close> (an id in \<open>-N .. -1\<close> is a Python index from the
  end). \<open>add_distributed_load\<close> and \<open>add_point_load\<close> never raise: they record the load
  with whatever id they are given, and an element id outside \<open>-M .. M-1\<close> (\<open>M\<close> elements)
  or a node id outside \<open>-N .. N-1\<close> makes the following \<open>solve\<close> raise \<open>IndexError\<close> and
  leave the model as it was.
\<close>

theorem reference_errors:
  "((node1 < - int (length (nodes m)) \<or> int (length (nodes m)) \<le> node1 \<or>
     node2 < - int (length (nodes m)) \<or> int (length (nodes m)) \<le> node2)
      \<longrightarrow> add_element m node1 node2 E A I = Inl IndexError) \<and>
   loads (add_distributed_load m element_id q) = loads m @ [Distributed element_id q] \<and>
   loads (add_point_load m node_id fx fy mz) = loads m @ [Point node_id fx fy mz] \<and>
   ((element_id < - int (length (elements m)) \<or> int (length (elements m)) \<le> element_id)
      \<longrightarrow> solve (add_distributed_load m element_id q) =
            (add_distributed_load m element_id q, Inl IndexError)) \<and>
   ((node_id < - int (length (nodes m)) \<or> int (length (nodes m)) \<le> node_id)
      \<longrightarrow> solve (add_point_load m node_id fx fy mz) =
            (add_point_load m node_id fx fy mz, Inl IndexError))"
proof (intro conjI impI)
  assume "node1 < - int (length (nodes m)) \<or> int (length (nodes m)) \<le> node1 \<or>
     node2 < - int (length (nodes m)) \<or> int (length (nodes m)) \<le> node2"
  then show "add_element m node1 node2 E A I = Inl IndexError"
    by (auto simp: add_element_def py_index_def split: sum.splits)
next
  show "loads (add_distributed_load m element_id q) = loads m @ [Distributed element_id q]"
    by (simp add: add_distributed_load_def)
next
  show "loads (add_point_load m node_id fx fy mz) = loads m @ [Point node_id fx fy mz]"
    by (simp add: add_point_load_def)
next
  assume b: "element_id < - int (length (elements m)) \<or> int (length (elements m)) \<le> element_id"
  show "solve (add_distributed_load m element_id q) =
        (add_distributed_load m element_id q, Inl IndexError)"
    by (rule solve_bad_load[where ld="Distributed element_id q"])
       (use b in \<open>auto simp: add_distributed_load_def assemble_load_out(2)\<close>)
next
  assume b: "node_id < - int (length (nodes m)) \<or> int (length (nodes m)) \<le> node_id"
  show "solve (add_point_load m node_id fx fy mz) =
        (add_point_load m node_id fx fy mz, Inl IndexError)"
    by (rule solve_bad_load[where ld="Point node_id fx fy mz"])
       (use b in \<open>auto simp: add_point_load_def assemble_load_out(1)\<close>)
qed

theorem reference_errors_witness:
  "int (length (nodes init)) \<le> 2 \<and> int (length (elements init)) \<le> 3 \<and>
   add_element init 2 0 1 1 1 = Inl IndexError \<and>
   loads (add_distributed_load init 3 7) = [Distributed 3 7] \<and>
   loads (add_point_load init 2 0 (- 1) 0) = [Point 2 0 (- 1) 0] \<and>
   solve (add_distributed_load init 3 7) = (add_distributed_load init 3 7, Inl IndexError) \<and>
   solve (add_point_load init 2 0 (- 1) 0) = (add_point_load init 2 0 (- 1) 0, Inl IndexError)"
  using reference_errors [where m = init and ?node1.0 = 2 and ?node2.0 = 0 and E = 1 and A = 1
      and I = 1 and element_id = 3 and q = 7 and node_id = 2 and fx = 0 and fy = "- 1" and mz = 0]
  by (simp add: init_def)

subsection \<open>Reading the results\<close>

lemma collect_Inr_step: "f x = Inr r \<Longrightarrow> collect f x acc = Inr (acc @ [r])"
  by (simp add: collect_def)

lemma collect_Inl_step: "f x = Inl e \<Longrightarrow> collect f x acc = Inl e"
  by (simp add: collect_def)

lemma for_loop_collect_Cons:
  "for_loop (collect f) (x # xs) acc =
     (case f x of Inl e \<Rightarrow> Inl e | Inr r \<Rightarrow> for_loop (collect f) xs (acc @ [r]))"
  by (cases "f x") (simp_all add: collect_Inr_step collect_Inl_step)

lemma collect_Inr:
  "for_loop (collect f) xs acc = Inr rs \<Longrightarrow>
   \<exists>ys. rs = acc @ ys \<and> length ys = length xs \<and> (\<forall>k<length xs. f (xs ! k) = Inr (ys ! k))"
proof (induction xs arbitrary: acc)
  case Nil
  then show ?case by simp
next
  case (Cons x xs)
  show ?case
  proof (cases "f x")
    case (Inl e)
    with Cons.prems show ?thesis
      by (simp only: for_loop_collect_Cons sum.case sum.distinct)
  next
    case (Inr r)
    with Cons.prems have rest: "for_loop (collect f) xs (acc @ [r]) = Inr rs"
      by (simp only: for_loop_collect_Cons sum.case)
    from Cons.IH[OF rest] obtain ys where ys: "rs = (acc @ [r]) @ ys" "length ys = length xs"
      "\<forall>k<length xs. f (xs ! k) = Inr (ys ! k)" by blast
    have "f ((x # xs) ! k) = Inr ((r # ys) ! k)" if "k < length (x # xs)" for k
    proof (cases k)
      case 0
      then show ?thesis using Inr by simp
    next
      case (Suc j)
      then show ?thesis using that ys(3) by simp
    qed
    then have "rs = acc @ (r # ys) \<and> length (r # ys) = length (x # xs) \<and>
        (\<forall>k<length (x # xs). f ((x # xs) ! k) = Inr ((r # ys) ! k))"
      using ys(1,2) by simp
    then show ?thesis by (rule exI)
  qed
qed

lemma collect_map:
  "(\<forall>x\<in>set xs. f x = Inr (g x)) \<Longrightarrow> for_loop (collect f) xs acc = Inr (acc @ map g xs)"
proof (induction xs arbitrary: acc)
  case Nil
  then show ?case by simp
next
  case (Cons x xs)
  have fx: "f x = Inr (g x)" using Cons.prems by simp
  have "\<forall>x\<in>set xs. f x = Inr (g x)" using Cons.prems by simp
  from Cons.IH[OF this, of "acc @ [g x]"] show ?case
    by (simp only: for_loop_collect_Cons fx sum.case list.map append_assoc append_Cons append_Nil)
qed

lemma collect_raises:
  "x \<in> set xs \<Longrightarrow> f x = Inl e \<Longrightarrow> (\<forall>y\<in>set xs. \<forall>e'. f y = Inl e' \<longrightarrow> e' = e) \<Longrightarrow>
   for_loop (collect f) xs acc = Inl e"
proof (induction xs arbitrary: acc)
  case Nil
  then show ?case by simp
next
  case (Cons y ys)
  show ?case
  proof (cases "f y")
    case (Inl e')
    have "e' = e" using Cons.prems(3) Inl by (meson list.set_intros(1))
    then show ?thesis using Inl by (simp only: for_loop_collect_Cons sum.case)
  next
    case (Inr r)
    have "x \<noteq> y" using Inr Cons.prems(2) by auto
    then have mem: "x \<in> set ys" using Cons.prems(1) by simp
    have all: "\<forall>y\<in>set ys. \<forall>e'. f y = Inl e' \<longrightarrow> e' = e"
      using Cons.prems(3) by (meson list.set_intros(2))
    show ?thesis
      using Cons.IH[OF mem Cons.prems(2) all, of "acc @ [r]"] Inr
      by (simp only: for_loop_collect_Cons sum.case)
  qed
qed


lemma masked_reaction_None:
  "masked_reaction None c i = (if c then Inl AttributeError else Inr 0)"
  by (simp add: masked_reaction_def get_attr_def)

lemma masked_reaction_Some: "masked_reaction (Some R) c i = (if c then np_get R i else Inr 0)"
  by (simp add: masked_reaction_def get_attr_def)

lemma support_reaction_triple:
  "sup_constraints s = (c0, c1, c2) \<Longrightarrow>
   support_reaction rs s =
     (case masked_reaction rs c0 (sup_node s * 3) of
           Inl e \<Rightarrow> Inl e
         | Inr rx \<Rightarrow>
             (case masked_reaction rs c1 (sup_node s * 3 + 1) of
                Inl e \<Rightarrow> Inl e
              | Inr ry \<Rightarrow>
                  (case masked_reaction rs c2 (sup_node s * 3 + 2) of
                     Inl e \<Rightarrow> Inl e
                   | Inr mz \<Rightarrow> Inr \<lparr>r_node = sup_node s, Rx = rx, Ry = ry, Mz = mz\<rparr>)))"
  by (simp add: support_reaction_def Let_def)

lemma support_reaction_unsolved:
  "support_reaction None s =
     (if sup_constraints s = (False, False, False)
      then Inr \<lparr>r_node = sup_node s, Rx = 0, Ry = 0, Mz = 0\<rparr>
      else Inl AttributeError)"
proof -
  obtain c0 c1 c2 where c: "sup_constraints s = (c0, c1, c2)"
    by (cases "sup_constraints s")
  show ?thesis
    unfolding support_reaction_triple[OF c] masked_reaction_None c
    by (cases c0; cases c1; cases c2) simp_all
qed

lemma masked_reaction_Inr:
  "masked_reaction (Some R) c i = Inr v \<Longrightarrow> (if c then np_get R i = Inr v else v = 0)"
  by (cases c) (simp_all add: masked_reaction_Some)

lemma support_reaction_Inr:
  assumes "support_reaction rs s = Inr r" and c: "sup_constraints s = (c0, c1, c2)"
  shows "r_node r = sup_node s"
    and "masked_reaction rs c0 (sup_node s * 3) = Inr (Rx r)"
    and "masked_reaction rs c1 (sup_node s * 3 + 1) = Inr (Ry r)"
    and "masked_reaction rs c2 (sup_node s * 3 + 2) = Inr (Mz r)"
proof -
  have eq: "(case masked_reaction rs c0 (sup_node s * 3) of
           Inl e \<Rightarrow> Inl e
         | Inr rx \<Rightarrow>
             (case masked_reaction rs c1 (sup_node s * 3 + 1) of
                Inl e \<Rightarrow> Inl e
              | Inr ry \<Rightarrow>
                  (case masked_reaction rs c2 (sup_node s * 3 + 2) of
                     Inl e \<Rightarrow> Inl e
                   | Inr mz \<Rightarrow> Inr \<lparr>r_node = sup_node s, Rx = rx, Ry = ry, Mz = mz\<rparr>))) = Inr r"
    using assms(1) unfolding support_reaction_triple[OF c] .
  obtain rx where rx: "masked_reaction rs c0 (sup_node s * 3) = Inr rx"
    using eq by (cases "masked_reaction rs c0 (sup_node s * 3)") simp_all
  obtain ry where ry: "masked_reaction rs c1 (sup_node s * 3 + 1) = Inr ry"
    using eq unfolding rx by (cases "masked_reaction rs c1 (sup_node s * 3 + 1)") simp_all
  obtain mz where mz: "masked_reaction rs c2 (sup_node s * 3 + 2) = Inr mz"
    using eq unfolding rx ry by (cases "masked_reaction rs c2 (sup_node s * 3 + 2)") simp_all
  have r: "r = \<lparr>r_node = sup_node s, Rx = rx, Ry = ry, Mz = mz\<rparr>"
    using eq unfolding rx ry mz by simp
  show "r_node r = sup_node s" "masked_reaction rs c0 (sup_node s * 3) = Inr (Rx r)"
    "masked_reaction rs c1 (sup_node s * 3 + 1) = Inr (Ry r)"
    "masked_reaction rs c2 (sup_node s * 3 + 2) = Inr (Mz r)"
    using rx ry mz by (simp_all add: r)
qed

lemma support_reaction_solved:
  assumes "support_reaction (Some R) s = Inr r" and "sup_constraints s = (c0, c1, c2)"
  shows "r_node r = sup_node s"
    and "if c0 then np_get R (sup_node s * 3) = Inr (Rx r) else Rx r = 0"
    and "if c1 then np_get R (sup_node s * 3 + 1) = Inr (Ry r) else Ry r = 0"
    and "if c2 then np_get R (sup_node s * 3 + 2) = Inr (Mz r) else Mz r = 0"
proof -
  note sr = support_reaction_Inr[OF assms]
  show "r_node r = sup_node s" by (rule sr(1))
  show "if c0 then np_get R (sup_node s * 3) = Inr (Rx r) else Rx r = 0"
    by (rule masked_reaction_Inr[OF sr(2)])
  show "if c1 then np_get R (sup_node s * 3 + 1) = Inr (Ry r) else Ry r = 0"
    by (rule masked_reaction_Inr[OF sr(3)])
  show "if c2 then np_get R (sup_node s * 3 + 2) = Inr (Mz r) else Mz r = 0"
    by (rule masked_reaction_Inr[OF sr(4)])
qed

lemma np_get_total: "- int (length R) \<le> i \<Longrightarrow> i < int (length R) \<Longrightarrow> \<exists>v. np_get R i = Inr v"
  by (auto simp: np_get_def py_index_def)

lemma masked_reaction_total:
  "- int (length R) \<le> i \<Longrightarrow> i < int (length R) \<Longrightarrow> \<exists>v. masked_reaction (Some R) c i = Inr v"
  using np_get_total[of R i] by (cases c) (simp_all add: masked_reaction_Some)

lemma support_reaction_total:
  assumes "- int (length R) \<le> sup_node s * 3" and "sup_node s * 3 + 2 < int (length R)"
  shows "\<exists>r. support_reaction (Some R) s = Inr r"
proof -
  obtain c0 c1 c2 where c: "sup_constraints s = (c0, c1, c2)"
    by (cases "sup_constraints s")
  obtain v0 where v0: "masked_reaction (Some R) c0 (sup_node s * 3) = Inr v0"
    using masked_reaction_total[of R "sup_node s * 3" c0] assms by auto
  obtain v1 where v1: "masked_reaction (Some R) c1 (sup_node s * 3 + 1) = Inr v1"
    using masked_reaction_total[of R "sup_node s * 3 + 1" c1] assms by auto
  obtain v2 where v2: "masked_reaction (Some R) c2 (sup_node s * 3 + 2) = Inr v2"
    using masked_reaction_total[of R "sup_node s * 3 + 2" c2] assms by auto
  show ?thesis
    unfolding support_reaction_triple[OF c] v0 v1 v2 by simp
qed


text \<open>
  C8, as the specification states it, fails: on a model that was never solved, with one
  support whose three flags are all false, \<open>get_support_reactions\<close> returns a summary of
  zeros and raises nothing (with no support at all it returns the empty list).
\<close>

theorem get_support_reactions_unsolved_counterexample:
  "reactions (add_support init 0 (False, False, False)) = None \<and>
   displacements (add_support init 0 (False, False, False)) = None \<and>
   get_support_reactions (add_support init 0 (False, False, False)) =
     Inr [\<lparr>r_node = 0, Rx = 0, Ry = 0, Mz = 0\<rparr>]"
  by (simp add: add_support_def init_def get_support_reactions_def collect_def
      support_reaction_def masked_reaction_def)

text \<open>
  C8, amended. On a model on which \<open>solve\<close> has not completed, the attributes
  \<open>displacements\<close> and \<open>reactions\<close> do not exist, so reading either raises
  \<open>AttributeError\<close>; \<open>get_support_reactions\<close> raises \<open>AttributeError\<close> exactly when some
  declared support has a flag set, and returns one all-zero entry for each support when
  no support has one.
\<close>

theorem unsolved_accessors:
  assumes "displacements m = None" and "reactions m = None"
  shows "get_attr (displacements m) = Inl AttributeError \<and>
         get_attr (reactions m) = Inl AttributeError \<and>
         ((\<exists>s\<in>set (supports m). sup_constraints s \<noteq> (False, False, False))
            \<longrightarrow> get_support_reactions m = Inl AttributeError) \<and>
         ((\<forall>s\<in>set (supports m). sup_constraints s = (False, False, False))
            \<longrightarrow> get_support_reactions m =
                  Inr (map (\<lambda>s. \<lparr>r_node = sup_node s, Rx = 0, Ry = 0, Mz = 0\<rparr>) (supports m)))"
proof (intro conjI impI)
  show "get_attr (displacements m) = Inl AttributeError" "get_attr (reactions m) = Inl AttributeError"
    using assms by (simp_all add: get_attr_def)
next
  assume "\<exists>s\<in>set (supports m). sup_constraints s \<noteq> (False, False, False)"
  then obtain s where s: "s \<in> set (supports m)" "sup_constraints s \<noteq> (False, False, False)"
    by blast
  have err: "\<forall>y\<in>set (supports m). \<forall>e'. support_reaction None y = Inl e' \<longrightarrow> e' = AttributeError"
    by (simp add: support_reaction_unsolved)
  have sx: "support_reaction None s = Inl AttributeError"
    using s(2) by (simp add: support_reaction_unsolved)
  show "get_support_reactions m = Inl AttributeError"
    unfolding get_support_reactions_def assms(2)
    by (rule collect_raises[OF s(1) sx err])
next
  assume "\<forall>s\<in>set (supports m). sup_constraints s = (False, False, False)"
  then have "\<forall>s\<in>set (supports m). support_reaction None s =
      Inr \<lparr>r_node = sup_node s, Rx = 0, Ry = 0, Mz = 0\<rparr>"
    by (simp add: support_reaction_unsolved)
  then have "for_loop (collect (support_reaction None)) (supports m) [] =
      Inr ([] @ map (\<lambda>s. \<lparr>r_node = sup_node s, Rx = 0, Ry = 0, Mz = 0\<rparr>) (supports m))"
    by (rule collect_map)
  then show "get_support_reactions m =
      Inr (map (\<lambda>s. \<lparr>r_node = sup_node s, Rx = 0, Ry = 0, Mz = 0\<rparr>) (supports m))"
    unfolding get_support_reactions_def assms(2) by simp
qed

theorem unsolved_accessors_witness:
  "displacements (add_support init 0 (True, True, False)) = None \<and>
   reactions (add_support init 0 (True, True, False)) = None \<and>
   get_attr (displacements (add_support init 0 (True, True, False))) = Inl AttributeError \<and>
   get_attr (reactions (add_support init 0 (True, True, False))) = Inl AttributeError \<and>
   get_support_reactions (add_support init 0 (True, True, False)) = Inl AttributeError \<and>
   get_support_reactions init = Inr []"
  using unsolved_accessors [of "add_support init 0 (True, True, False)"] unsolved_accessors [of init]
  by (simp add: add_support_def init_def)



lemma total_projr: "\<exists>r. x = Inr r \<Longrightarrow> x = Inr (projr x)"
  by auto

text \<open>
  C9. On a solved model with reaction vector \<open>R\<close>, \<open>get_support_reactions\<close> returns one
  entry for each declared support, in order, carrying the support's node id; each of
  \<open>Rx\<close>, \<open>Ry\<close>, \<open>Mz\<close> is the entry of \<open>R\<close> at the node's degree of freedom
  \<open>3 * node\<close>, \<open>3 * node + 1\<close>, \<open>3 * node + 2\<close> when the support's flag for it is set, and
  exactly zero when it is not, whatever \<open>R\<close> holds there. The call returns whenever the
  three subscripts of every support are inside \<open>R\<close>.
\<close>

theorem get_support_reactions_masked:
  assumes "reactions m = Some R"
  shows "((\<forall>s\<in>set (supports m). - int (length R) \<le> sup_node s * 3 \<and> sup_node s * 3 + 2 < int (length R))
            \<longrightarrow> (\<exists>rs. get_support_reactions m = Inr rs)) \<and>
         (\<forall>rs. get_support_reactions m = Inr rs \<longrightarrow>
            length rs = length (supports m) \<and>
            (\<forall>k<length (supports m).
               r_node (rs ! k) = sup_node (supports m ! k) \<and>
               (case sup_constraints (supports m ! k) of
                  (c0, c1, c2) \<Rightarrow>
                    (if c0 then np_get R (sup_node (supports m ! k) * 3) = Inr (Rx (rs ! k))
                     else Rx (rs ! k) = 0) \<and>
                    (if c1 then np_get R (sup_node (supports m ! k) * 3 + 1) = Inr (Ry (rs ! k))
                     else Ry (rs ! k) = 0) \<and>
                    (if c2 then np_get R (sup_node (supports m ! k) * 3 + 2) = Inr (Mz (rs ! k))
                     else Mz (rs ! k) = 0))))"
    (is "?total \<and> ?masked")
proof
  show ?total
  proof
    assume a: "\<forall>s\<in>set (supports m). - int (length R) \<le> sup_node s * 3 \<and> sup_node s * 3 + 2 < int (length R)"
    have "support_reaction (Some R) s = Inr (projr (support_reaction (Some R) s))"
      if "s \<in> set (supports m)" for s
    proof (rule total_projr, rule support_reaction_total)
      show "- int (length R) \<le> sup_node s * 3" using a that by simp
      show "sup_node s * 3 + 2 < int (length R)" using a that by simp
    qed
    then have "\<forall>s\<in>set (supports m).
        support_reaction (Some R) s = Inr (projr (support_reaction (Some R) s))"
      by (rule ballI)
    then have "for_loop (collect (support_reaction (Some R))) (supports m) [] =
        Inr ([] @ map (\<lambda>s. projr (support_reaction (Some R) s)) (supports m))"
      by (rule collect_map)
    then have "get_support_reactions m =
        Inr ([] @ map (\<lambda>s. projr (support_reaction (Some R) s)) (supports m))"
      unfolding get_support_reactions_def assms .
    then show "\<exists>rs. get_support_reactions m = Inr rs"
      by (rule exI)
  qed
next
  show ?masked
  proof (intro allI impI)
    fix rs
    assume "get_support_reactions m = Inr rs"
    then have "for_loop (collect (support_reaction (Some R))) (supports m) [] = Inr rs"
      unfolding get_support_reactions_def assms .
    from collect_Inr[OF this] obtain ys where ys: "rs = [] @ ys" "length ys = length (supports m)"
      "\<forall>k<length (supports m). support_reaction (Some R) (supports m ! k) = Inr (ys ! k)"
      by (elim exE conjE)
    have rs: "rs = ys" using ys(1) by simp
    have len: "length rs = length (supports m)"
      using ys(2) rs by simp
    show "length rs = length (supports m) \<and>
            (\<forall>k<length (supports m).
               r_node (rs ! k) = sup_node (supports m ! k) \<and>
               (case sup_constraints (supports m ! k) of
                  (c0, c1, c2) \<Rightarrow>
                    (if c0 then np_get R (sup_node (supports m ! k) * 3) = Inr (Rx (rs ! k))
                     else Rx (rs ! k) = 0) \<and>
                    (if c1 then np_get R (sup_node (supports m ! k) * 3 + 1) = Inr (Ry (rs ! k))
                     else Ry (rs ! k) = 0) \<and>
                    (if c2 then np_get R (sup_node (supports m ! k) * 3 + 2) = Inr (Mz (rs ! k))
                     else Mz (rs ! k) = 0)))"
    proof (rule conjI[OF len], rule allI, rule impI)
      fix k
      assume k: "k < length (supports m)"
      obtain c0 c1 c2 where c: "sup_constraints (supports m ! k) = (c0, c1, c2)"
        by (cases "sup_constraints (supports m ! k)")
      have sr: "support_reaction (Some R) (supports m ! k) = Inr (rs ! k)"
        using ys(3) k unfolding rs by (elim allE impE)
      show "r_node (rs ! k) = sup_node (supports m ! k) \<and>
               (case sup_constraints (supports m ! k) of
                  (c0, c1, c2) \<Rightarrow>
                    (if c0 then np_get R (sup_node (supports m ! k) * 3) = Inr (Rx (rs ! k))
                     else Rx (rs ! k) = 0) \<and>
                    (if c1 then np_get R (sup_node (supports m ! k) * 3 + 1) = Inr (Ry (rs ! k))
                     else Ry (rs ! k) = 0) \<and>
                    (if c2 then np_get R (sup_node (supports m ! k) * 3 + 2) = Inr (Mz (rs ! k))
                     else Mz (rs ! k) = 0))"
        unfolding c prod.case
        by (intro conjI support_reaction_solved[OF sr c])
    qed
  qed
qed


theorem get_support_reactions_masked_witness:
  "get_support_reactions
     \<lparr>nodes = [(0, 0), (2, 0)], elements = [], supports =
        [\<lparr>sup_node = 0, sup_constraints = (True, True, False)\<rparr>,
         \<lparr>sup_node = 1, sup_constraints = (False, True, False)\<rparr>],
      loads = [], displacements = Some [0, 0, 1, 0, 0, - 1],
      reactions = Some [7, - 3, 5, 9, - 3, 11]\<rparr> =
   Inr [\<lparr>r_node = 0, Rx = 7, Ry = - 3, Mz = 0\<rparr>, \<lparr>r_node = 1, Rx = 0, Ry = - 3, Mz = 0\<rparr>]"
  using get_support_reactions_masked
    [of "\<lparr>nodes = [(0, 0), (2, 0)], elements = [], supports =
        [\<lparr>sup_node = 0, sup_constraints = (True, True, False)\<rparr>,
         \<lparr>sup_node = 1, sup_constraints = (False, True, False)\<rparr>],
      loads = [], displacements = Some [0, 0, 1, 0, 0, - 1],
      reactions = Some [7, - 3, 5, 9, - 3, 11]\<rparr>" "[7, - 3, 5, 9, - 3, 11]"]
  by (simp add: get_support_reactions_def collect_def support_reaction_def masked_reaction_def
      get_attr_def np_get_def py_index_def)

subsection \<open>Free and constrained degrees of freedom\<close>

lemma remove_dof_filter:
  assumes "distinct xs"
  shows "remove_dof n c i xs = filter (\<lambda>d. \<not> (c \<and> d = n * 3 + i)) xs"
proof (cases c)
  case False
  then show ?thesis by (simp add: remove_dof_def)
next
  case True
  show ?thesis
  proof (cases "n * 3 + i \<in> set xs")
    case mem: True
    have "remove1 (n * 3 + i) xs = filter (\<lambda>d. n * 3 + i \<noteq> d) xs"
      using assms by (simp add: distinct_remove1_removeAll removeAll_filter_not_eq)
    also have "\<dots> = filter (\<lambda>d. \<not> (c \<and> d = n * 3 + i)) xs"
      using True by (intro filter_cong) auto
    finally show ?thesis using True mem by (simp add: remove_dof_def)
  next
    case nmem: False
    have "filter (\<lambda>d. \<not> (c \<and> d = n * 3 + i)) xs = xs"
      using nmem by (simp add: filter_id_conv) blast
    then show ?thesis using True nmem by (simp add: remove_dof_def)
  qed
qed

lemma mem_support_dofs:
  "sup_constraints s = (c0, c1, c2) \<Longrightarrow>
   d \<in> set (support_dofs s) \<longleftrightarrow>
     (c0 \<and> d = sup_node s * 3) \<or> (c1 \<and> d = sup_node s * 3 + 1) \<or> (c2 \<and> d = sup_node s * 3 + 2)"
  by (auto simp: support_dofs_def Let_def)

lemma remove_support_filter:
  assumes "distinct xs"
  shows "remove_support s xs = filter (\<lambda>d. d \<notin> set (support_dofs s)) xs"
proof -
  obtain c0 c1 c2 where c: "sup_constraints s = (c0, c1, c2)"
    by (cases "sup_constraints s")
  let ?n = "sup_node s"
  have 1: "remove_dof ?n c0 0 xs = filter (\<lambda>d. \<not> (c0 \<and> d = ?n * 3 + 0)) xs"
    by (rule remove_dof_filter[OF assms])
  have d1: "distinct (remove_dof ?n c0 0 xs)"
    unfolding 1 using assms by simp
  have 2: "remove_dof ?n c1 1 (remove_dof ?n c0 0 xs) =
      filter (\<lambda>d. \<not> (c1 \<and> d = ?n * 3 + 1)) (remove_dof ?n c0 0 xs)"
    by (rule remove_dof_filter[OF d1])
  have d2: "distinct (remove_dof ?n c1 1 (remove_dof ?n c0 0 xs))"
    unfolding 2 using d1 by simp
  have 3: "remove_dof ?n c2 2 (remove_dof ?n c1 1 (remove_dof ?n c0 0 xs)) =
      filter (\<lambda>d. \<not> (c2 \<and> d = ?n * 3 + 2)) (remove_dof ?n c1 1 (remove_dof ?n c0 0 xs))"
    by (rule remove_dof_filter[OF d2])
  have "remove_support s xs =
      remove_dof ?n c2 2 (remove_dof ?n c1 1 (remove_dof ?n c0 0 xs))"
    by (simp add: remove_support_def Let_def c)
  also have "\<dots> = filter (\<lambda>d. \<not> (c2 \<and> d = ?n * 3 + 2))
        (remove_dof ?n c1 1 (remove_dof ?n c0 0 xs))"
    by (rule 3)
  also have "\<dots> = filter (\<lambda>d. \<not> (c2 \<and> d = ?n * 3 + 2))
        (filter (\<lambda>d. \<not> (c1 \<and> d = ?n * 3 + 1)) (remove_dof ?n c0 0 xs))"
    by (simp only: 2)
  also have "\<dots> = filter (\<lambda>d. \<not> (c2 \<and> d = ?n * 3 + 2))
        (filter (\<lambda>d. \<not> (c1 \<and> d = ?n * 3 + 1))
          (filter (\<lambda>d. \<not> (c0 \<and> d = ?n * 3 + 0)) xs))"
    by (simp only: 1)
  also have "\<dots> = filter (\<lambda>d. d \<notin> set (support_dofs s)) xs"
    unfolding filter_filter
    by (rule filter_cong[OF refl]) (auto simp: mem_support_dofs[OF c])
  finally show ?thesis .
qed

lemma fold_remove_support:
  "distinct xs \<Longrightarrow>
   fold remove_support sups xs = filter (\<lambda>d. d \<notin> set (constrained_dofs sups)) xs"
proof (induction sups arbitrary: xs)
  case Nil
  then show ?case by (simp add: constrained_dofs_def)
next
  case (Cons s sups)
  have d: "distinct (remove_support s xs)"
    unfolding remove_support_filter[OF Cons.prems] using Cons.prems by simp
  have "fold remove_support (s # sups) xs =
      filter (\<lambda>d. d \<notin> set (constrained_dofs sups)) (filter (\<lambda>d. d \<notin> set (support_dofs s)) xs)"
    using Cons.IH[OF d] by (simp add: remove_support_filter[OF Cons.prems])
  also have "\<dots> = filter (\<lambda>d. d \<notin> set (constrained_dofs (s # sups))) xs"
    unfolding filter_filter
    by (rule filter_cong[OF refl]) (auto simp: constrained_dofs_def)
  finally show ?case .
qed

lemma free_dofs_filter:
  "free_dofs sups n = filter (\<lambda>d. d \<notin> set (constrained_dofs sups)) (map int [0..<n])"
  unfolding free_dofs_def
  by (rule fold_remove_support) (simp add: distinct_map)

lemma free_dofs_nat:
  "free_dofs sups n = map int (filter (\<lambda>d. int d \<notin> set (constrained_dofs sups)) [0..<n])"
  by (simp add: free_dofs_filter filter_map comp_def)

lemma free_dofs_cong:
  "set (constrained_dofs sups1) = set (constrained_dofs sups2) \<Longrightarrow>
   free_dofs sups1 n = free_dofs sups2 n"
  by (simp add: free_dofs_filter)

lemma constrained_dofs_append:
  "constrained_dofs (sups @ [s]) = constrained_dofs sups @ support_dofs s"
  by (simp add: constrained_dofs_def)

lemma support_dofs_subset:
  "s \<in> set sups \<Longrightarrow> set (support_dofs s) \<subseteq> set (constrained_dofs sups)"
  by (auto simp: constrained_dofs_def)

lemma solve_example_beam:
  "solve example_beam =
     (example_beam\<lparr>displacements := Some [0, 0, 1, 0, 0, - 1],
                   reactions := Some [0, - 3, 0, 0, - 3, 0]\<rparr>,
      Inr ([0, 0, 1, 0, 0, - 1], [0, - 3, 0, 0, - 3, 0]))"
  unfolding example_beam_def by code_simp

lemma apply_boundary_conditions_eq:
  "apply_boundary_conditions m K F =
     (submatrix K (free_dofs (supports m) (length F)) (free_dofs (supports m) (length F)),
      subvector F (free_dofs (supports m) (length F)),
      free_dofs (supports m) (length F))"
  by (simp add: apply_boundary_conditions_def Let_def)

lemma solve_cong:
  assumes "nodes m1 = nodes m2" "elements m1 = elements m2" "loads m1 = loads m2"
    and "\<And>n. free_dofs (supports m1) n = free_dofs (supports m2) n"
  shows "snd (solve m1) = snd (solve m2)"
proof -
  have a: "assemble_global_matrix m1 = assemble_global_matrix m2"
    by (simp only: assemble_global_matrix_def assms(1-3))
  have b: "apply_boundary_conditions m1 K F = apply_boundary_conditions m2 K F" for K F
    by (simp only: apply_boundary_conditions_eq assms(4))
  show ?thesis
    unfolding solve_def a b
    by (simp split: sum.splits prod.splits add: Let_def)
qed

lemma support_eta: "\<lparr>sup_node = sup_node s, sup_constraints = sup_constraints s\<rparr> = (s :: support)"
  by simp

lemma free_dofs_duplicate:
  assumes "s \<in> set sups"
  shows "free_dofs (sups @ [s]) n = free_dofs sups n"
proof (rule free_dofs_cong)
  show "set (constrained_dofs (sups @ [s])) = set (constrained_dofs sups)"
    using support_dofs_subset[OF assms] by (auto simp: constrained_dofs_append)
qed

lemma free_dofs_overlap:
  "free_dofs (sups @ [\<lparr>sup_node = node, sup_constraints = (a0, a1, a2)\<rparr>,
                       \<lparr>sup_node = node, sup_constraints = (b0, b1, b2)\<rparr>]) n =
   free_dofs (sups @ [\<lparr>sup_node = node, sup_constraints = (a0 \<or> b0, a1 \<or> b1, a2 \<or> b2)\<rparr>]) n"
  by (rule free_dofs_cong) (auto simp: constrained_dofs_def support_dofs_def)

text \<open>
  C10. Declaring a support constraint again is harmless. If a support is already
  declared, adding an entry with the same node and flags leaves the list of free degrees
  of freedom, the reduced system and what \<open>solve\<close> returns or raises unchanged; and two
  entries on one node give the same free list, reduced system and result of \<open>solve\<close> as a
  single entry carrying the disjunction of their flags. This is so because a flagged
  degree of freedom is removed from the free list only if it is still in it.
\<close>

theorem duplicate_support_harmless:
  "(s \<in> set (supports m) \<longrightarrow>
      free_dofs (supports (add_support m (sup_node s) (sup_constraints s))) n =
        free_dofs (supports m) n \<and>
      apply_boundary_conditions (add_support m (sup_node s) (sup_constraints s)) K F =
        apply_boundary_conditions m K F \<and>
      snd (solve (add_support m (sup_node s) (sup_constraints s))) = snd (solve m)) \<and>
   free_dofs (supports (add_support (add_support m node (a0, a1, a2)) node (b0, b1, b2))) n =
     free_dofs (supports (add_support m node (a0 \<or> b0, a1 \<or> b1, a2 \<or> b2))) n \<and>
   apply_boundary_conditions (add_support (add_support m node (a0, a1, a2)) node (b0, b1, b2)) K F =
     apply_boundary_conditions (add_support m node (a0 \<or> b0, a1 \<or> b1, a2 \<or> b2)) K F \<and>
   snd (solve (add_support (add_support m node (a0, a1, a2)) node (b0, b1, b2))) =
     snd (solve (add_support m node (a0 \<or> b0, a1 \<or> b1, a2 \<or> b2)))"
proof (intro conjI impI)
  assume s: "s \<in> set (supports m)"
  have f: "free_dofs (supports (add_support m (sup_node s) (sup_constraints s))) k =
        free_dofs (supports m) k" for k
    using free_dofs_duplicate[OF s] by (simp add: add_support_def support_eta)
  show "free_dofs (supports (add_support m (sup_node s) (sup_constraints s))) n =
        free_dofs (supports m) n"
    by (rule f)
  show "apply_boundary_conditions (add_support m (sup_node s) (sup_constraints s)) K F =
        apply_boundary_conditions m K F"
    by (simp only: apply_boundary_conditions_eq f)
  show "snd (solve (add_support m (sup_node s) (sup_constraints s))) = snd (solve m)"
    by (rule solve_cong) (simp_all add: f, simp_all add: add_support_def)
next
  have f: "free_dofs (supports (add_support (add_support m node (a0, a1, a2)) node (b0, b1, b2))) k =
     free_dofs (supports (add_support m node (a0 \<or> b0, a1 \<or> b1, a2 \<or> b2))) k" for k
    using free_dofs_overlap[of "supports m" node a0 a1 a2 b0 b1 b2 k]
    by (simp add: add_support_def)
  show "free_dofs (supports (add_support (add_support m node (a0, a1, a2)) node (b0, b1, b2))) n =
     free_dofs (supports (add_support m node (a0 \<or> b0, a1 \<or> b1, a2 \<or> b2))) n"
    by (rule f)
  show "apply_boundary_conditions (add_support (add_support m node (a0, a1, a2)) node (b0, b1, b2)) K F =
     apply_boundary_conditions (add_support m node (a0 \<or> b0, a1 \<or> b1, a2 \<or> b2)) K F"
    by (simp only: apply_boundary_conditions_eq f)
  show "snd (solve (add_support (add_support m node (a0, a1, a2)) node (b0, b1, b2))) =
     snd (solve (add_support m node (a0 \<or> b0, a1 \<or> b1, a2 \<or> b2)))"
    by (rule solve_cong) (simp_all add: f, simp_all add: add_support_def)
qed

theorem duplicate_support_harmless_witness:
  "\<lparr>sup_node = 0, sup_constraints = (True, True, False)\<rparr> \<in> set (supports example_beam) \<and>
   free_dofs (supports (add_support example_beam 0 (True, True, False))) 6 =
     free_dofs (supports example_beam) 6 \<and>
   snd (solve (add_support example_beam 0 (True, True, False))) =
     Inr ([0, 0, 1, 0, 0, - 1], [0, - 3, 0, 0, - 3, 0])"
  using duplicate_support_harmless
    [where m = example_beam and s = "\<lparr>sup_node = 0, sup_constraints = (True, True, False)\<rparr>"
       and n = 6]
    solve_example_beam
  by (simp add: example_beam_def)


subsection \<open>Dimensions of the assembled system and the scattered displacements\<close>

lemma square_mat_zeros2: "square_mat n (zeros2 n n)"
  by (simp add: square_mat_def zeros2_def zeros_def list_all_iff)

lemma square_mat_nth: "square_mat n K \<Longrightarrow> a < n \<Longrightarrow> length (K ! a) = n"
  by (simp add: square_mat_def list_all_length)

lemma square_mat_update:
  assumes "square_mat n K" and "length r = n"
  shows "square_mat n (K[a := r])"
proof -
  have "set (K[a := r]) \<subseteq> insert r (set K)"
    by (rule set_update_subset_insert)
  then show ?thesis
    using assms by (auto simp: square_mat_def list_all_iff)
qed

lemma mat_add_at_square:
  assumes "square_mat n K" and "mat_add_at K i j v = Inr K'"
  shows "square_mat n K'"
proof -
  from assms(2) obtain a b where a: "py_index (length K) i = Inr a"
    and b: "py_index (length (K ! a)) j = Inr b"
    and K': "K' = K[a := (K ! a)[b := K ! a ! b + v]]"
    by (auto simp: mat_add_at_def split: sum.splits)
  have "a < n" using py_index_bound[OF a] assms(1) by (simp add: square_mat_def)
  then have "length ((K ! a)[b := K ! a ! b + v]) = n"
    using square_mat_nth[OF assms(1)] by simp
  then show ?thesis
    unfolding K' by (rule square_mat_update[OF assms(1)])
qed

lemma scatter_row_square:
  assumes "square_mat n K" and "scatter_row dm k m K = Inr K'"
  shows "square_mat n K'"
  using assms(1) assms(2)[unfolded scatter_row_def]
  by (rule for_loop_invariant) (erule (1) mat_add_at_square)

lemma assemble_element_square:
  assumes "square_mat n K" and "assemble_element el K = Inr K'"
  shows "square_mat n K'"
  using assms(1) assms(2)[unfolded assemble_element_def Let_def]
  by (rule for_loop_invariant) (erule (1) scatter_row_square)

lemma assemble_elements_square:
  assumes "square_mat n K" and "for_loop assemble_element els K = Inr K'"
  shows "square_mat n K'"
  using assms by (rule for_loop_invariant) (erule (1) assemble_element_square)

lemma assemble_loads_length:
  assumes "for_loop (assemble_load els) lds F = Inr F'"
  shows "length F' = length F"
  by (rule for_loop_invariant[where P="\<lambda>G. length G = length F", OF refl assms])
     (simp add: assemble_load_length)

lemma assemble_global_matrix_Inr:
  assumes "assemble_global_matrix m = Inr (K, F)"
  shows "for_loop assemble_element (elements m)
           (zeros2 (length (nodes m) * 3) (length (nodes m) * 3)) = Inr K"
    and "for_loop (assemble_load (elements m)) (loads m) (zeros (length (nodes m) * 3)) = Inr F"
  using assms by (auto simp: assemble_global_matrix_def Let_def split: sum.splits)

lemma assemble_dims:
  assumes "assemble_global_matrix m = Inr (K, F)"
  shows "square_mat (3 * length (nodes m)) K" and "length F = 3 * length (nodes m)"
proof -
  note a = assemble_global_matrix_Inr[OF assms]
  have "square_mat (length (nodes m) * 3) K"
    by (rule assemble_elements_square[OF square_mat_zeros2 a(1)])
  then show "square_mat (3 * length (nodes m)) K"
    by (simp add: mult.commute)
  show "length F = 3 * length (nodes m)"
    using assemble_loads_length[OF a(2)] by (simp add: zeros_def)
qed

lemma scatter_fold_length:
  "length (fold (\<lambda>(i, dof) U. U[nat dof := Ur ! i]) ps U) = length U"
  by (induction ps arbitrary: U) (auto split: prod.splits)

lemma scatter_fold_other:
  "d \<notin> (\<lambda>p. nat (snd p)) ` set ps \<Longrightarrow>
   fold (\<lambda>(i, dof) U. U[nat dof := Ur ! i]) ps U ! d = U ! d"
  by (induction ps arbitrary: U) (auto split: prod.splits)

lemma scatter_fold_hit:
  "distinct (map (\<lambda>p. nat (snd p)) ps) \<Longrightarrow> (i, dof) \<in> set ps \<Longrightarrow> nat dof < length U \<Longrightarrow>
   fold (\<lambda>(i, dof) U. U[nat dof := Ur ! i]) ps U ! nat dof = Ur ! i"
proof (induction ps arbitrary: U)
  case Nil
  then show ?case by simp
next
  case (Cons p ps)
  obtain j e where p: "p = (j, e)" by (cases p)
  show ?case
  proof (cases "(i, dof) = p")
    case True
    then have ij: "j = i" "e = dof" using p by simp_all
    have "nat dof \<notin> (\<lambda>p. nat (snd p)) ` set ps"
      using Cons.prems(1) p ij by auto
    then have "fold (\<lambda>(i, dof) U. U[nat dof := Ur ! i]) ps (U[nat dof := Ur ! i]) ! nat dof =
        U[nat dof := Ur ! i] ! nat dof"
      by (rule scatter_fold_other)
    then show ?thesis using Cons.prems(3) p ij by simp
  next
    case False
    then have mem: "(i, dof) \<in> set ps" using Cons.prems(2) by simp
    have d: "distinct (map (\<lambda>p. nat (snd p)) ps)" using Cons.prems(1) by simp
    have "fold (\<lambda>(i, dof) U. U[nat dof := Ur ! i]) ps (U[nat e := Ur ! j]) ! nat dof = Ur ! i"
      by (rule Cons.IH[OF d mem]) (simp add: Cons.prems(3))
    then show ?thesis using p by simp
  qed
qed

lemma int_range_image: "0 \<le> d \<Longrightarrow> d < int n \<Longrightarrow> d \<in> int ` {0..<n}"
  by (rule image_eqI[where x="nat d"]) auto

lemma free_dofs_props:
  shows free_dofs_distinct: "distinct (free_dofs sups n)"
    and free_dofs_range: "d \<in> set (free_dofs sups n) \<Longrightarrow> 0 \<le> d \<and> d < int n"
    and free_dofs_mem: "d \<in> set (free_dofs sups n) \<longleftrightarrow>
          0 \<le> d \<and> d < int n \<and> d \<notin> set (constrained_dofs sups)"
    and free_dofs_nat_distinct: "distinct (map nat (free_dofs sups n))"
proof -
  show "distinct (free_dofs sups n)"
    by (simp add: free_dofs_filter distinct_map)
  show m: "d \<in> set (free_dofs sups n) \<longleftrightarrow> 0 \<le> d \<and> d < int n \<and> d \<notin> set (constrained_dofs sups)"
    by (auto simp: free_dofs_filter int_range_image)
  show "d \<in> set (free_dofs sups n) \<Longrightarrow> 0 \<le> d \<and> d < int n"
    using m by simp
  show "distinct (map nat (free_dofs sups n))"
    by (simp add: free_dofs_nat comp_def)
qed

lemma scatter_free_length: "length (scatter_free free Ur n) = n"
  by (simp add: scatter_free_def scatter_fold_length zeros_def)

lemma scatter_free_constrained:
  assumes "d < n" and "int d \<notin> set (free_dofs sups n)"
  shows "scatter_free (free_dofs sups n) Ur n ! d = 0"
proof -
  have "d \<notin> (\<lambda>p. nat (snd p)) ` set (enumerate 0 (free_dofs sups n))"
  proof
    assume "d \<in> (\<lambda>p. nat (snd p)) ` set (enumerate 0 (free_dofs sups n))"
    then obtain p where p: "p \<in> set (enumerate 0 (free_dofs sups n))" "d = nat (snd p)"
      by blast
    then have "snd p \<in> set (free_dofs sups n)"
      by (metis in_set_enumerate_eq nth_mem add.right_neutral diff_zero)
    moreover from this have "0 \<le> snd p" by (simp add: free_dofs_range)
    ultimately show False using assms(2) p(2) by simp
  qed
  then show ?thesis
    unfolding scatter_free_def using assms(1)
    by (simp add: scatter_fold_other zeros_def)
qed

lemma scatter_free_free:
  assumes "i < length (free_dofs sups n)"
  shows "scatter_free (free_dofs sups n) Ur n ! nat (free_dofs sups n ! i) = Ur ! i"
proof -
  let ?free = "free_dofs sups n"
  have mem: "(i, ?free ! i) \<in> set (enumerate 0 ?free)"
    using assms by (simp add: in_set_enumerate_eq)
  have "map (\<lambda>p. nat (snd p)) (enumerate 0 ?free) = map nat (map snd (enumerate 0 ?free))"
    by (simp only: map_map comp_def)
  then have d: "distinct (map (\<lambda>p. nat (snd p)) (enumerate 0 ?free))"
    by (simp only: map_snd_enumerate free_dofs_nat_distinct)
  have "?free ! i \<in> set ?free" using assms by simp
  then have r: "nat (?free ! i) < length (zeros n)"
    using free_dofs_range[of "?free ! i" sups n] by (auto simp: zeros_def)
  show ?thesis
    unfolding scatter_free_def by (rule scatter_fold_hit[OF d mem r])
qed

lemma solve_Inr:
  assumes "solve m = (m', Inr (U, R))"
  obtains K F Ur where "assemble_global_matrix m = Inr (K, F)"
    and "linalg_solve (submatrix K (free_dofs (supports m) (length F)) (free_dofs (supports m) (length F)))
           (subvector F (free_dofs (supports m) (length F))) = Inr Ur"
    and "U = scatter_free (free_dofs (supports m) (length F)) Ur (length F)"
    and "R = vec_sub (mat_vec K U) F"
    and "m' = m\<lparr>displacements := Some U, reactions := Some R\<rparr>"
  using assms
  by (auto simp: solve_def apply_boundary_conditions_eq Let_def split: sum.splits prod.splits)

text \<open>
  C3. When \<open>solve\<close> returns \<open>(U, R)\<close>, \<open>U\<close> is stored as \<open>displacements\<close>, has one entry
  for each of the \<open>3N\<close> degrees of freedom, and is exactly zero at every degree of freedom
  that some support flags as constrained. The entries of the solution \<open>U_reduced\<close> of the
  reduced system sit at the free indices, in order, and every other entry of \<open>U\<close> is zero.
\<close>

theorem constrained_displacements_zero:
  assumes "solve m = (m', Inr (U, R))"
  shows "displacements m' = Some U \<and> length U = 3 * length (nodes m) \<and>
         (\<forall>d\<in>set (constrained_dofs (supports m)).
            0 \<le> d \<and> d < int (length U) \<longrightarrow> U ! nat d = 0) \<and>
         (\<exists>K F K_reduced F_reduced free_dof U_reduced.
            assemble_global_matrix m = Inr (K, F) \<and>
            apply_boundary_conditions m K F = (K_reduced, F_reduced, free_dof) \<and>
            linalg_solve K_reduced F_reduced = Inr U_reduced \<and>
            (\<forall>i<length free_dof. U ! nat (free_dof ! i) = U_reduced ! i) \<and>
            (\<forall>d<length U. int d \<notin> set free_dof \<longrightarrow> U ! d = 0))"
proof -
  from assms obtain K F Ur where a: "assemble_global_matrix m = Inr (K, F)"
    and l: "linalg_solve (submatrix K (free_dofs (supports m) (length F)) (free_dofs (supports m) (length F)))
           (subvector F (free_dofs (supports m) (length F))) = Inr Ur"
    and U: "U = scatter_free (free_dofs (supports m) (length F)) Ur (length F)"
    and m': "m' = m\<lparr>displacements := Some U, reactions := Some R\<rparr>"
    by (rule solve_Inr)
  let ?free = "free_dofs (supports m) (length F)"
  have lenF: "length F = 3 * length (nodes m)"
    by (rule assemble_dims(2)[OF a])
  have lenU: "length U = length F"
    unfolding U by (rule scatter_free_length)
  have zero: "U ! d = 0" if "d < length U" "int d \<notin> set ?free" for d
    unfolding U using that lenU by (intro scatter_free_constrained) simp_all
  have free: "U ! nat (?free ! i) = Ur ! i" if "i < length ?free" for i
    unfolding U using that by (rule scatter_free_free)
  have 1: "displacements m' = Some U"
    by (simp add: m')
  have 2: "length U = 3 * length (nodes m)"
    using lenU lenF by simp
  have 3: "\<forall>d\<in>set (constrained_dofs (supports m)).
            0 \<le> d \<and> d < int (length U) \<longrightarrow> U ! nat d = 0"
  proof (intro ballI impI)
    fix d
    assume d: "d \<in> set (constrained_dofs (supports m))" and r: "0 \<le> d \<and> d < int (length U)"
    have "int (nat d) \<notin> set ?free"
      using d r by (simp add: free_dofs_mem)
    moreover have "nat d < length U" using r by auto
    ultimately show "U ! nat d = 0" by (intro zero)
  qed
  have 4: "assemble_global_matrix m = Inr (K, F) \<and>
            apply_boundary_conditions m K F = (submatrix K ?free ?free, subvector F ?free, ?free) \<and>
            linalg_solve (submatrix K ?free ?free) (subvector F ?free) = Inr Ur \<and>
            (\<forall>i<length ?free. U ! nat (?free ! i) = Ur ! i) \<and>
            (\<forall>d<length U. int d \<notin> set ?free \<longrightarrow> U ! d = 0)"
    using a l zero free by (simp add: apply_boundary_conditions_eq)
  show ?thesis
    using 1 2 3 4 by blast
qed


theorem constrained_displacements_zero_witness:
  "displacements (fst (solve example_beam)) = Some [0, 0, 1, 0, 0, - 1] \<and>
   constrained_dofs (supports example_beam) = [0, 1, 4] \<and>
   [0, 0, 1, 0, 0, - 1 :: real] ! 0 = 0 \<and>
   [0, 0, 1, 0, 0, - 1 :: real] ! 1 = 0 \<and>
   [0, 0, 1, 0, 0, - 1 :: real] ! 4 = 0"
  using constrained_displacements_zero [OF solve_example_beam] solve_example_beam
  by (simp add: example_beam_def constrained_dofs_def support_dofs_def)

subsection \<open>The elimination solves the system, and fails exactly on singular ones\<close>

lemma gauss_step:
  "rows \<noteq> [] \<Longrightarrow>
   gauss rows =
     (if lead (rows ! pivot_index rows) = 0 then Inl LinAlgError
      else (case gauss (map (eliminate (rows ! pivot_index rows))
                          (remaining_rows rows (pivot_index rows))) of
              Inl e \<Rightarrow> Inl e
            | Inr xs \<Rightarrow> Inr (back_substitute (rows ! pivot_index rows) xs # xs)))"
proof (cases rows)
  case Nil
  assume "rows \<noteq> []"
  with Nil show ?thesis by simp
next
  case (Cons r rs)
  show ?thesis
    unfolding Cons by (simp add: Let_def)
qed

lemma argmax_abs_less: "xs \<noteq> [] \<Longrightarrow> argmax_abs xs < length xs"
  by (induction xs) (auto simp: Let_def)

lemma argmax_abs_max: "x \<in> set xs \<Longrightarrow> \<bar>x\<bar> \<le> \<bar>xs ! argmax_abs xs\<bar>"
proof (induction xs)
  case Nil
  then show ?case by simp
next
  case (Cons y ys)
  show ?case
  proof (cases "ys = []")
    case True
    then show ?thesis using Cons.prems by simp
  next
    case False
    show ?thesis
    proof (cases "x = y")
      case True
      then show ?thesis using False by (auto simp: Let_def)
    next
      case ne: False
      then have "x \<in> set ys" using Cons.prems by simp
      then have "\<bar>x\<bar> \<le> \<bar>ys ! argmax_abs ys\<bar>" by (rule Cons.IH)
      then show ?thesis using False by (auto simp: Let_def)
    qed
  qed
qed

lemma pivot_index_less: "rows \<noteq> [] \<Longrightarrow> pivot_index rows < length rows"
  using argmax_abs_less[of "map lead rows"] by (simp add: pivot_index_def)

lemma pivot_lead_max:
  assumes "r \<in> set rows"
  shows "\<bar>lead r\<bar> \<le> \<bar>lead (rows ! pivot_index rows)\<bar>"
proof -
  have ne: "rows \<noteq> []" using assms by auto
  have "\<bar>lead r\<bar> \<le> \<bar>map lead rows ! argmax_abs (map lead rows)\<bar>"
    by (rule argmax_abs_max) (use assms in simp)
  then show ?thesis
    using pivot_index_less[OF ne] by (simp add: pivot_index_def)
qed

lemma length_remaining_rows: "length (remaining_rows rows p) = length rows - 1"
  by (simp add: remaining_rows_def)

lemma set_remaining_rows_subset: "rows \<noteq> [] \<Longrightarrow> set (remaining_rows rows p) \<subseteq> set rows"
proof -
  assume ne: "rows \<noteq> []"
  have "set (tl (rows[p := hd rows])) \<subseteq> set (rows[p := hd rows])"
    by (cases "rows[p := hd rows]") auto
  also have "\<dots> \<subseteq> insert (hd rows) (set rows)"
    by (rule set_update_subset_insert)
  also have "\<dots> = set rows"
    using ne by (simp add: insert_absorb)
  finally show ?thesis by (simp add: remaining_rows_def)
qed

lemma set_rows_pivot:
  assumes "p < length rows"
  shows "set rows \<subseteq> insert (rows ! p) (set (remaining_rows rows p))"
proof (cases rows)
  case Nil
  then show ?thesis using assms by simp
next
  case (Cons r rs)
  show ?thesis
  proof (cases p)
    case 0
    then show ?thesis using Cons by (auto simp: remaining_rows_def)
  next
    case (Suc k)
    have k: "k < length rs" using assms Cons Suc by simp
    have rem: "remaining_rows rows p = rs[k := r]"
      using Cons Suc by (simp add: remaining_rows_def)
    have "x \<in> insert (rows ! p) (set (rs[k := r]))" if "x \<in> set rows" for x
    proof (cases "x = r")
      case True
      then show ?thesis using k by (simp add: set_update_memI)
    next
      case False
      then have "x \<in> set rs" using that Cons by simp
      then obtain j where j: "j < length rs" "rs ! j = x"
        by (auto simp: in_set_conv_nth)
      show ?thesis
      proof (cases "j = k")
        case True
        then show ?thesis using j Cons Suc by simp
      next
        case False
        then have "rs[k := r] ! j = x" using j by simp
        then have "x \<in> set (rs[k := r])" using j(1) by (metis length_list_update nth_mem)
        then show ?thesis by simp
      qed
    qed
    then show ?thesis unfolding rem by blast
  qed
qed

lemma dot_Nil2: "dot c [] = 0"
  by (cases c) simp_all

lemma dot_hd_tl: "c \<noteq> [] \<Longrightarrow> dot c (x # xs) = hd c * x + dot (tl c) xs"
  by (cases c) simp_all

lemma dot_eliminate:
  "length a = length b \<Longrightarrow>
   dot (map (\<lambda>(c, p). c - f * p) (zip a b)) xs = dot a xs - f * dot b xs"
proof (induction a b arbitrary: xs rule: list_induct2)
  case Nil
  then show ?case by simp
next
  case (Cons x xs' y ys)
  show ?case
  proof (cases xs)
    case Nil
    then show ?thesis by simp
  next
    case (Cons z zs)
    then show ?thesis using Cons.IH[of zs] by (simp add: algebra_simps)
  qed
qed

lemma eliminate_fst_length:
  "length (fst r) = Suc n \<Longrightarrow> length (fst piv) = Suc n \<Longrightarrow> length (fst (eliminate piv r)) = n"
  by (simp add: eliminate_def Let_def)

lemma dot_eliminate_row:
  assumes "length (fst r) = Suc n" and "length (fst piv) = Suc n"
  shows "dot (fst (eliminate piv r)) xs =
         dot (tl (fst r)) xs - lead r / lead piv * dot (tl (fst piv)) xs"
proof -
  have "length (tl (fst r)) = length (tl (fst piv))"
    using assms by simp
  then show ?thesis
    unfolding eliminate_def Let_def fst_conv by (rule dot_eliminate)
qed

lemma snd_eliminate: "snd (eliminate piv r) = snd r - lead r / lead piv * snd piv"
  by (simp add: eliminate_def Let_def)

lemma dot_fst_Cons:
  "length (fst r) = Suc n \<Longrightarrow> dot (fst r) (x # xs) = lead r * x + dot (tl (fst r)) xs"
  by (cases "fst r") (simp_all add: lead_def)

lemma lift_row:
  assumes nz: "lead piv \<noteq> 0"
    and lr: "length (fst r) = Suc n" and lp: "length (fst piv) = Suc n"
    and red: "dot (fst (eliminate piv r)) xt = b - lead r / lead piv * pb"
    and pivrow: "lead piv * x0 + dot (tl (fst piv)) xt = pb"
  shows "dot (fst r) (x0 # xt) = b"
proof -
  have "dot (tl (fst r)) xt - lead r / lead piv * dot (tl (fst piv)) xt =
        b - lead r / lead piv * pb"
    using red by (simp only: dot_eliminate_row[OF lr lp])
  then have "dot (tl (fst r)) xt = b - lead r / lead piv * (pb - dot (tl (fst piv)) xt)"
    by (simp add: algebra_simps)
  also have "pb - dot (tl (fst piv)) xt = lead piv * x0"
    using pivrow by simp
  also have "lead r / lead piv * (lead piv * x0) = lead r * x0"
    using nz by simp
  finally show ?thesis
    by (simp add: dot_fst_Cons[OF lr])
qed

lemma reduce_row:
  assumes nz: "lead piv \<noteq> 0"
    and lr: "length (fst r) = Suc n" and lp: "length (fst piv) = Suc n"
    and row: "dot (fst r) (y0 # yt) = b"
    and pivrow: "dot (fst piv) (y0 # yt) = pb"
  shows "dot (fst (eliminate piv r)) yt = b - lead r / lead piv * pb"
proof -
  have r: "dot (tl (fst r)) yt = b - lead r * y0"
    using row by (simp add: dot_fst_Cons[OF lr])
  have p: "dot (tl (fst piv)) yt = pb - lead piv * y0"
    using pivrow by (simp add: dot_fst_Cons[OF lp])
  have "lead r / lead piv * (lead piv * y0) = lead r * y0"
    using nz by simp
  then show ?thesis
    unfolding dot_eliminate_row[OF lr lp] r p by (simp add: algebra_simps)
qed

lemma dot_replicate_zero: "dot c (replicate n 0) = 0"
proof (induction c arbitrary: n)
  case Nil
  then show ?case by simp
next
  case (Cons a c)
  then show ?case by (cases n) simp_all
qed

lemma gauss_Suc:
  assumes len: "length rows = Suc n" and wf: "\<forall>r\<in>set rows. length (fst r) = Suc n"
  defines "piv \<equiv> rows ! pivot_index rows"
    and "rest \<equiv> remaining_rows rows (pivot_index rows)"
  shows "piv \<in> set rows"
    and "length (fst piv) = Suc n"
    and "set rest \<subseteq> set rows"
    and "set rows \<subseteq> insert piv (set rest)"
    and "length (map (eliminate piv) rest) = n"
    and "\<forall>r\<in>set (map (eliminate piv) rest). length (fst r) = n"
    and "gauss rows =
           (if lead piv = 0 then Inl LinAlgError
            else (case gauss (map (eliminate piv) rest) of
                    Inl e \<Rightarrow> Inl e
                  | Inr xs \<Rightarrow> Inr (back_substitute piv xs # xs)))"
proof -
  have ne: "rows \<noteq> []" using len by auto
  have p: "pivot_index rows < length rows"
    by (rule pivot_index_less[OF ne])
  show mem: "piv \<in> set rows"
    unfolding piv_def using p by simp
  show lp: "length (fst piv) = Suc n"
    using wf mem by simp
  show sub: "set rest \<subseteq> set rows"
    unfolding rest_def by (rule set_remaining_rows_subset[OF ne])
  show "set rows \<subseteq> insert piv (set rest)"
    unfolding rest_def piv_def by (rule set_rows_pivot[OF p])
  show "length (map (eliminate piv) rest) = n"
    unfolding rest_def using len by (simp add: length_remaining_rows)
  show "\<forall>r\<in>set (map (eliminate piv) rest). length (fst r) = n"
  proof
    fix r'
    assume "r' \<in> set (map (eliminate piv) rest)"
    then obtain r where r: "r \<in> set rest" "r' = eliminate piv r"
      by auto
    then have "length (fst r) = Suc n"
      using sub wf by blast
    then show "length (fst r') = n"
      unfolding r(2) using lp by (rule eliminate_fst_length)
  qed
  show "gauss rows =
           (if lead piv = 0 then Inl LinAlgError
            else (case gauss (map (eliminate piv) rest) of
                    Inl e \<Rightarrow> Inl e
                  | Inr xs \<Rightarrow> Inr (back_substitute piv xs # xs)))"
    unfolding piv_def rest_def by (rule gauss_step[OF ne])
qed

lemma back_substitute_row:
  "lead piv \<noteq> 0 \<Longrightarrow> lead piv * back_substitute piv xt + dot (tl (fst piv)) xt = snd piv"
  by (simp add: back_substitute_def)

lemma gauss_sound:
  "length rows = n \<Longrightarrow> \<forall>r\<in>set rows. length (fst r) = n \<Longrightarrow> gauss rows = Inr xs \<Longrightarrow>
   length xs = n \<and> (\<forall>r\<in>set rows. dot (fst r) xs = snd r)"
proof (induction n arbitrary: rows xs)
  case 0
  then show ?case by simp
next
  case (Suc n)
  define piv where "piv = rows ! pivot_index rows"
  define rest where "rest = remaining_rows rows (pivot_index rows)"
  note g = gauss_Suc[OF Suc.prems(1,2), folded piv_def rest_def]
  have nz: "lead piv \<noteq> 0"
    using Suc.prems(3) g(7) by (auto split: if_splits)
  then obtain xt where xt: "gauss (map (eliminate piv) rest) = Inr xt"
    and xs: "xs = back_substitute piv xt # xt"
    using Suc.prems(3) g(7) by (auto split: sum.splits)
  from Suc.IH[OF g(5) g(6) xt]
  have lt: "length xt = n" and red: "\<forall>r\<in>set (map (eliminate piv) rest). dot (fst r) xt = snd r"
    by simp_all
  have pivrow: "lead piv * back_substitute piv xt + dot (tl (fst piv)) xt = snd piv"
    by (rule back_substitute_row[OF nz])
  have "dot (fst r) xs = snd r" if r: "r \<in> set rows" for r
  proof (cases "r = piv")
    case True
    show ?thesis
      unfolding True xs using pivrow by (simp add: dot_fst_Cons[OF g(2)])
  next
    case False
    then have rr: "r \<in> set rest" using g(4) r by blast
    have lr: "length (fst r) = Suc n" using Suc.prems(2) r by simp
    have "dot (fst (eliminate piv r)) xt = snd (eliminate piv r)"
      using red rr by simp
    then have e: "dot (fst (eliminate piv r)) xt = snd r - lead r / lead piv * snd piv"
      by (simp only: snd_eliminate)
    show ?thesis
      unfolding xs by (rule lift_row[OF nz lr g(2) e pivrow])
  qed
  then show ?case using lt xs by simp
qed

lemma gauss_unique:
  "length rows = n \<Longrightarrow> \<forall>r\<in>set rows. length (fst r) = n \<Longrightarrow> gauss rows = Inr xs \<Longrightarrow>
   length ys = n \<Longrightarrow> \<forall>r\<in>set rows. dot (fst r) ys = snd r \<Longrightarrow> ys = xs"
proof (induction n arbitrary: rows xs ys)
  case 0
  then show ?case by simp
next
  case (Suc n)
  define piv where "piv = rows ! pivot_index rows"
  define rest where "rest = remaining_rows rows (pivot_index rows)"
  note g = gauss_Suc[OF Suc.prems(1,2), folded piv_def rest_def]
  have nz: "lead piv \<noteq> 0"
    using Suc.prems(3) g(7) by (auto split: if_splits)
  then obtain xt where xt: "gauss (map (eliminate piv) rest) = Inr xt"
    and xs: "xs = back_substitute piv xt # xt"
    using Suc.prems(3) g(7) by (auto split: sum.splits)
  obtain y0 yt where ys: "ys = y0 # yt" and lyt: "length yt = n"
    using Suc.prems(4) by (cases ys) auto
  have prow: "dot (fst piv) (y0 # yt) = snd piv"
    using Suc.prems(5) g(1) ys by simp
  have "\<forall>r'\<in>set (map (eliminate piv) rest). dot (fst r') yt = snd r'"
  proof
    fix r'
    assume "r' \<in> set (map (eliminate piv) rest)"
    then obtain r where r: "r \<in> set rest" "r' = eliminate piv r"
      by auto
    have rin: "r \<in> set rows" using r(1) g(3) by blast
    have lr: "length (fst r) = Suc n" using Suc.prems(2) rin by simp
    have row: "dot (fst r) (y0 # yt) = snd r"
      using Suc.prems(5) rin ys by simp
    show "dot (fst r') yt = snd r'"
      unfolding r(2) snd_eliminate by (rule reduce_row[OF nz lr g(2) row prow])
  qed
  from Suc.IH[OF g(5) g(6) xt lyt this] have yt: "yt = xt" .
  have "lead piv * y0 + dot (tl (fst piv)) xt = snd piv"
    using prow by (simp add: dot_fst_Cons[OF g(2)] yt)
  then have "lead piv * y0 = lead piv * back_substitute piv xt"
    using back_substitute_row[OF nz, of xt] by linarith
  then have "y0 = back_substitute piv xt"
    using nz by simp
  then show ?case by (simp add: ys xs yt)
qed

lemma gauss_homogeneous:
  "length rows = n \<Longrightarrow> \<forall>r\<in>set rows. length (fst r) = n \<Longrightarrow> gauss rows = Inr xs \<Longrightarrow>
   length ys = n \<Longrightarrow> \<forall>r\<in>set rows. dot (fst r) ys = 0 \<Longrightarrow> ys = replicate n 0"
proof (induction n arbitrary: rows xs ys)
  case 0
  then show ?case by simp
next
  case (Suc n)
  define piv where "piv = rows ! pivot_index rows"
  define rest where "rest = remaining_rows rows (pivot_index rows)"
  note g = gauss_Suc[OF Suc.prems(1,2), folded piv_def rest_def]
  have nz: "lead piv \<noteq> 0"
    using Suc.prems(3) g(7) by (auto split: if_splits)
  then obtain xt where xt: "gauss (map (eliminate piv) rest) = Inr xt"
    using Suc.prems(3) g(7) by (auto split: sum.splits)
  obtain y0 yt where ys: "ys = y0 # yt" and lyt: "length yt = n"
    using Suc.prems(4) by (cases ys) auto
  have prow: "dot (fst piv) (y0 # yt) = 0"
    using Suc.prems(5) g(1) ys by simp
  have "\<forall>r'\<in>set (map (eliminate piv) rest). dot (fst r') yt = 0"
  proof
    fix r'
    assume "r' \<in> set (map (eliminate piv) rest)"
    then obtain r where r: "r \<in> set rest" "r' = eliminate piv r"
      by auto
    have rin: "r \<in> set rows" using r(1) g(3) by blast
    have lr: "length (fst r) = Suc n" using Suc.prems(2) rin by simp
    have row: "dot (fst r) (y0 # yt) = 0"
      using Suc.prems(5) rin ys by simp
    have "dot (fst (eliminate piv r)) yt = 0 - lead r / lead piv * 0"
      by (rule reduce_row[OF nz lr g(2) row prow])
    then show "dot (fst r') yt = 0"
      unfolding r(2) by simp
  qed
  from Suc.IH[OF g(5) g(6) xt lyt this] have yt: "yt = replicate n 0" .
  have "lead piv * y0 + dot (tl (fst piv)) (replicate n 0) = 0"
    using prow by (simp add: dot_fst_Cons[OF g(2)] yt)
  then have "lead piv * y0 = 0"
    by (simp add: dot_replicate_zero)
  then have "y0 = 0"
    using nz by simp
  then show ?case by (simp add: ys yt)
qed

lemma gauss_error: "gauss rows = Inl e \<Longrightarrow> e = LinAlgError"
proof (induction "length rows" arbitrary: rows)
  case 0
  then show ?case by simp
next
  case (Suc n)
  then have ne: "rows \<noteq> []" by auto
  have len: "n = length (map (eliminate (rows ! pivot_index rows))
      (remaining_rows rows (pivot_index rows)))"
    using Suc.hyps(2) by (simp add: length_remaining_rows)
  show ?case
    using Suc.prems Suc.hyps(1)[OF len] unfolding gauss_step[OF ne]
    by (auto split: if_splits sum.splits)
qed

lemma gauss_complete:
  "length rows = n \<Longrightarrow> \<forall>r\<in>set rows. length (fst r) = n \<Longrightarrow>
   (\<And>ys. length ys = n \<Longrightarrow> \<forall>r\<in>set rows. dot (fst r) ys = 0 \<Longrightarrow> ys = replicate n 0) \<Longrightarrow>
   \<exists>xs. gauss rows = Inr xs"
proof (induction n arbitrary: rows)
  case 0
  then show ?case by simp
next
  case (Suc n)
  define piv where "piv = rows ! pivot_index rows"
  define rest where "rest = remaining_rows rows (pivot_index rows)"
  note g = gauss_Suc[OF Suc.prems(1,2), folded piv_def rest_def]
  have nz: "lead piv \<noteq> 0"
  proof
    assume z: "lead piv = 0"
    have "\<forall>r\<in>set rows. dot (fst r) (1 # replicate n 0) = 0"
    proof
      fix r
      assume r: "r \<in> set rows"
      have "\<bar>lead r\<bar> \<le> \<bar>lead piv\<bar>"
        unfolding piv_def by (rule pivot_lead_max[OF r])
      then have "lead r = 0" using z by simp
      moreover have "length (fst r) = Suc n" using Suc.prems(2) r by simp
      ultimately show "dot (fst r) (1 # replicate n 0) = 0"
        by (simp add: dot_fst_Cons dot_replicate_zero)
    qed
    then have "1 # replicate n 0 = replicate (Suc n) (0 :: real)"
      by (intro Suc.prems(3)) simp_all
    then show False by simp
  qed
  have "\<exists>xt. gauss (map (eliminate piv) rest) = Inr xt"
  proof (rule Suc.IH[OF g(5) g(6)])
    fix yt :: vec
    assume lyt: "length yt = n"
      and hom: "\<forall>r'\<in>set (map (eliminate piv) rest). dot (fst r') yt = 0"
    define y0 where "y0 = - dot (tl (fst piv)) yt / lead piv"
    have pivrow: "lead piv * y0 + dot (tl (fst piv)) yt = 0"
      using nz by (simp add: y0_def)
    have "\<forall>r\<in>set rows. dot (fst r) (y0 # yt) = 0"
    proof
      fix r
      assume r: "r \<in> set rows"
      show "dot (fst r) (y0 # yt) = 0"
      proof (cases "r = piv")
        case True
        then show ?thesis using pivrow by (simp add: dot_fst_Cons[OF g(2)])
      next
        case False
        then have rr: "r \<in> set rest" using g(4) r by blast
        have lr: "length (fst r) = Suc n" using Suc.prems(2) r by simp
        have "dot (fst (eliminate piv r)) yt = 0"
          using hom rr by simp
        then have e: "dot (fst (eliminate piv r)) yt = 0 - lead r / lead piv * 0"
          by simp
        show ?thesis
          by (rule lift_row[OF nz lr g(2) e pivrow])
      qed
    qed
    then have "y0 # yt = replicate (Suc n) 0"
      by (intro Suc.prems(3)) (simp_all add: lyt)
    then show "yt = replicate n 0" by simp
  qed
  then show ?case
    unfolding g(7) using nz by auto
qed

lemma linalg_solve_error: "linalg_solve A b = Inl e \<Longrightarrow> e = LinAlgError"
  by (auto simp: linalg_solve_def split: if_splits dest: gauss_error)

lemma linalg_solve_rows:
  assumes "list_all (\<lambda>row. length row = length A) A" and "length b = length A"
  shows "length (zip A b) = length A" and "\<forall>r\<in>set (zip A b). length (fst r) = length A"
    and "i < length A \<Longrightarrow> (A ! i, b ! i) \<in> set (zip A b)"
proof -
  show "length (zip A b) = length A" using assms(2) by simp
  show "\<forall>r\<in>set (zip A b). length (fst r) = length A"
  proof
    fix r
    assume "r \<in> set (zip A b)"
    then have "fst r \<in> set A"
      by (metis set_zip_leftD prod.collapse)
    then show "length (fst r) = length A"
      using assms(1) by (simp add: list_all_iff)
  qed
  show "(A ! i, b ! i) \<in> set (zip A b)" if "i < length A"
    using that assms(2) by (auto simp: in_set_zip)
qed

lemma linalg_solve_sound:
  assumes "linalg_solve A b = Inr xs"
  shows "length xs = length A" and "i < length A \<Longrightarrow> dot (A ! i) xs = b ! i"
proof -
  from assms have sq: "list_all (\<lambda>row. length row = length A) A" and lb: "length b = length A"
    and g: "gauss (zip A b) = Inr xs"
    by (auto simp: linalg_solve_def split: if_splits)
  note r = linalg_solve_rows[OF sq lb]
  note s = gauss_sound[OF r(1) r(2) g]
  show "length xs = length A" using s by simp
  show "dot (A ! i) xs = b ! i" if "i < length A"
    using s r(3)[OF that] by fastforce
qed

lemma linalg_solve_singular:
  assumes "length ys = length A" and "ys \<noteq> replicate (length A) 0"
    and "\<forall>row\<in>set A. dot row ys = 0"
  shows "linalg_solve A b = Inl LinAlgError"
proof (cases "linalg_solve A b")
  case (Inl e)
  then show ?thesis using linalg_solve_error by blast
next
  case (Inr xs)
  then have sq: "list_all (\<lambda>row. length row = length A) A" and lb: "length b = length A"
    and g: "gauss (zip A b) = Inr xs"
    by (auto simp: linalg_solve_def split: if_splits)
  note r = linalg_solve_rows[OF sq lb]
  have "\<forall>r\<in>set (zip A b). dot (fst r) ys = 0"
  proof
    fix r
    assume "r \<in> set (zip A b)"
    then have "fst r \<in> set A"
      by (metis set_zip_leftD prod.collapse)
    then show "dot (fst r) ys = 0" using assms(3) by simp
  qed
  from gauss_homogeneous[OF r(1) r(2) g assms(1) this] assms(2)
  show ?thesis by simp
qed

lemma linalg_solve_eq:
  assumes sq: "list_all (\<lambda>row. length row = length A) A" and lb: "length b = length A"
    and ns: "\<And>ys. length ys = length A \<Longrightarrow> \<forall>row\<in>set A. dot row ys = 0 \<Longrightarrow>
               ys = replicate (length A) 0"
    and lx: "length xs = length A" and sol: "\<And>i. i < length A \<Longrightarrow> dot (A ! i) xs = b ! i"
  shows "linalg_solve A b = Inr xs"
proof -
  note r = linalg_solve_rows[OF sq lb]
  have "\<exists>zs. gauss (zip A b) = Inr zs"
  proof (rule gauss_complete[OF r(1) r(2)])
    fix ys :: vec
    assume l: "length ys = length A" and h: "\<forall>r\<in>set (zip A b). dot (fst r) ys = 0"
    have "\<forall>row\<in>set A. dot row ys = 0"
    proof
      fix row
      assume "row \<in> set A"
      then obtain i where i: "i < length A" "A ! i = row"
        by (auto simp: in_set_conv_nth)
      then show "dot row ys = 0"
        using h r(3)[OF i(1)] by fastforce
    qed
    then show "ys = replicate (length A) 0"
      by (rule ns[OF l])
  qed
  then obtain zs where zs: "gauss (zip A b) = Inr zs" by blast
  have "\<forall>r\<in>set (zip A b). dot (fst r) xs = snd r"
  proof
    fix r
    assume "r \<in> set (zip A b)"
    then obtain i where "i < length A" "r = (A ! i, b ! i)"
      using lb by (auto simp: in_set_zip)
    then show "dot (fst r) xs = snd r" using sol by simp
  qed
  from gauss_unique[OF r(1) r(2) zs lx this] zs
  show ?thesis using sq lb by (simp add: linalg_solve_def)
qed

lemma dot_update:
  "length row = length U \<Longrightarrow> i < length U \<Longrightarrow>
   dot row (U[i := v]) = dot row U + row ! i * (v - U ! i)"
proof (induction row U arbitrary: i rule: list_induct2)
  case Nil
  then show ?case by simp
next
  case (Cons a row u U)
  then show ?case by (cases i) (simp_all add: algebra_simps)
qed

lemma dot_scatter_fold:
  "distinct (map nat free) \<Longrightarrow> \<forall>j\<in>set free. nat j < length U \<and> U ! nat j = 0 \<Longrightarrow>
   length row = length U \<Longrightarrow> k + length free \<le> length Ur \<Longrightarrow>
   dot row (fold (\<lambda>(i, dof) U. U[nat dof := Ur ! i]) (enumerate k free) U) =
     dot row U + dot (map (\<lambda>j. row ! nat j) free) (drop k Ur)"
proof (induction free arbitrary: k U)
  case Nil
  then show ?case by (simp add: dot_Nil2)
next
  case (Cons j fs)
  let ?U1 = "U[nat j := Ur ! k]"
  have d: "distinct (map nat fs)" using Cons.prems(1) by simp
  have z: "\<forall>j'\<in>set fs. nat j' < length ?U1 \<and> ?U1 ! nat j' = 0"
  proof
    fix j'
    assume j': "j' \<in> set fs"
    then have "nat j' \<in> set (map nat fs)" by simp
    moreover have "nat j \<notin> set (map nat fs)" using Cons.prems(1) by simp
    ultimately have "nat j' \<noteq> nat j" by metis
    then show "nat j' < length ?U1 \<and> ?U1 ! nat j' = 0"
      using Cons.prems(2) j' by simp
  qed
  have l: "length row = length ?U1" using Cons.prems(3) by simp
  have k: "Suc k + length fs \<le> length Ur" using Cons.prems(4) by simp
  have kk: "k < length Ur" using Cons.prems(4) by simp
  have "dot row (fold (\<lambda>(i, dof) U. U[nat dof := Ur ! i]) (enumerate k (j # fs)) U) =
        dot row (fold (\<lambda>(i, dof) U. U[nat dof := Ur ! i]) (enumerate (Suc k) fs) ?U1)"
    by simp
  also have "\<dots> = dot row ?U1 + dot (map (\<lambda>j. row ! nat j) fs) (drop (Suc k) Ur)"
    by (rule Cons.IH[OF d z l k])
  also have "dot row ?U1 = dot row U + row ! nat j * Ur ! k"
    using dot_update[OF Cons.prems(3), of "nat j" "Ur ! k"] Cons.prems(2) by simp
  also have "dot row U + row ! nat j * Ur ! k + dot (map (\<lambda>j. row ! nat j) fs) (drop (Suc k) Ur) =
        dot row U + dot (map (\<lambda>j. row ! nat j) (j # fs)) (Ur ! k # drop (Suc k) Ur)"
    by simp
  also have "Ur ! k # drop (Suc k) Ur = drop k Ur"
    by (rule Cons_nth_drop_Suc[OF kk])
  finally show ?case .
qed

lemma dot_scatter_free:
  assumes "length row = n" and "length Ur = length (free_dofs sups n)"
  shows "dot row (scatter_free (free_dofs sups n) Ur n) =
         dot (map (\<lambda>j. row ! nat j) (free_dofs sups n)) Ur"
proof -
  have z: "\<forall>j\<in>set (free_dofs sups n). nat j < length (zeros n) \<and> zeros n ! nat j = 0"
  proof
    fix j
    assume "j \<in> set (free_dofs sups n)"
    then have "0 \<le> j \<and> j < int n" by (rule free_dofs_range)
    then have "nat j < n" by auto
    then show "nat j < length (zeros n) \<and> zeros n ! nat j = 0"
      by (simp add: zeros_def)
  qed
  have "dot row (scatter_free (free_dofs sups n) Ur n) =
      dot row (zeros n) + dot (map (\<lambda>j. row ! nat j) (free_dofs sups n)) (drop 0 Ur)"
    unfolding scatter_free_def
    by (rule dot_scatter_fold[OF free_dofs_nat_distinct z]) (simp_all add: assms zeros_def)
  then show ?thesis
    by (simp add: zeros_def dot_replicate_zero)
qed

subsection \<open>Reactions\<close>

lemma length_mat_vec: "length (mat_vec K U) = length K"
  by (simp add: mat_vec_def)

lemma mat_vec_nth: "d < length K \<Longrightarrow> mat_vec K U ! d = dot (K ! d) U"
  by (simp add: mat_vec_def)

lemma length_vec_sub: "length (vec_sub a b) = min (length a) (length b)"
  by (simp add: vec_sub_def)

lemma vec_sub_nth: "d < length a \<Longrightarrow> d < length b \<Longrightarrow> vec_sub a b ! d = a ! d - b ! d"
  by (simp add: vec_sub_def)

lemma length_submatrix: "length (submatrix K rows cols) = length rows"
  by (simp add: submatrix_def)

lemma submatrix_nth:
  "a < length rows \<Longrightarrow> submatrix K rows cols ! a = map (\<lambda>j. K ! nat (rows ! a) ! nat j) cols"
  by (simp add: submatrix_def)

lemma subvector_nth: "a < length idx \<Longrightarrow> subvector F idx ! a = F ! nat (idx ! a)"
  by (simp add: subvector_def)

lemma residual_free:
  assumes sq: "square_mat n K" and lF: "length F = n"
    and ls: "linalg_solve (submatrix K (free_dofs sups n) (free_dofs sups n))
               (subvector F (free_dofs sups n)) = Inr Ur"
    and d: "d < n" and free: "int d \<in> set (free_dofs sups n)"
  shows "vec_sub (mat_vec K (scatter_free (free_dofs sups n) Ur n)) F ! d = 0"
proof -
  let ?free = "free_dofs sups n"
  let ?U = "scatter_free ?free Ur n"
  from free obtain a where a: "a < length ?free" "?free ! a = int d"
    by (auto simp: in_set_conv_nth)
  have lK: "length K = n" using sq by (simp add: square_mat_def)
  have lrow: "length (K ! d) = n" by (rule square_mat_nth[OF sq d])
  have lUr: "length Ur = length ?free"
    using linalg_solve_sound(1)[OF ls] by (simp add: length_submatrix)
  have "dot (submatrix K ?free ?free ! a) Ur = subvector F ?free ! a"
    by (rule linalg_solve_sound(2)[OF ls]) (simp add: length_submatrix a(1))
  then have red: "dot (map (\<lambda>j. K ! d ! nat j) ?free) Ur = F ! d"
    using a by (simp add: submatrix_nth subvector_nth)
  have "dot (K ! d) ?U = dot (map (\<lambda>j. K ! d ! nat j) ?free) Ur"
    by (rule dot_scatter_free[OF lrow lUr])
  then have "dot (K ! d) ?U = F ! d"
    using red by simp
  then show ?thesis
    using d lK lF by (simp add: vec_sub_nth mat_vec_nth length_mat_vec)
qed

text \<open>
  In exact arithmetic only. With the exact elimination for the solver, when \<open>solve\<close>
  returns \<open>(U, R)\<close>, \<open>R\<close> is stored as \<open>reactions\<close>, has one entry for each of the \<open>3N\<close>
  degrees of freedom and equals \<open>K U - F\<close> for the assembled \<open>K\<close> and \<open>F\<close>, and it is zero
  at every degree of freedom that no support flags as constrained. This is a property of
  the exact solve and says nothing of a float64 run, where the residual at a free degree
  of freedom is a rounding error on a well-conditioned system and arbitrary on a singular
  one that numpy does not detect.
\<close>

theorem exact_reactions_residual:
  assumes "solve m = (m', Inr (U, R))"
  shows "reactions m' = Some R \<and> length R = 3 * length (nodes m) \<and>
         (\<exists>K F. assemble_global_matrix m = Inr (K, F) \<and> R = vec_sub (mat_vec K U) F) \<and>
         (\<forall>d<length R. int d \<notin> set (constrained_dofs (supports m)) \<longrightarrow> R ! d = 0) \<and>
         (\<forall>d<length R. R ! d \<noteq> 0 \<longrightarrow> int d \<in> set (constrained_dofs (supports m)))"
proof -
  from assms obtain K F Ur where a: "assemble_global_matrix m = Inr (K, F)"
    and l: "linalg_solve (submatrix K (free_dofs (supports m) (length F)) (free_dofs (supports m) (length F)))
           (subvector F (free_dofs (supports m) (length F))) = Inr Ur"
    and U: "U = scatter_free (free_dofs (supports m) (length F)) Ur (length F)"
    and R: "R = vec_sub (mat_vec K U) F"
    and m': "m' = m\<lparr>displacements := Some U, reactions := Some R\<rparr>"
    by (rule solve_Inr)
  have lF: "length F = 3 * length (nodes m)"
    by (rule assemble_dims(2)[OF a])
  have sq: "square_mat (length F) K"
    using assemble_dims(1)[OF a] lF by simp
  have lK: "length K = length F"
    using sq by (simp add: square_mat_def)
  have lR: "length R = length F"
    unfolding R by (simp add: length_vec_sub length_mat_vec lK)
  have zero: "R ! d = 0" if "d < length R" "int d \<notin> set (constrained_dofs (supports m))" for d
  proof -
    have dn: "d < length F" using that(1) lR by simp
    then have "int d \<in> set (free_dofs (supports m) (length F))"
      using that(2) by (simp add: free_dofs_mem)
    from residual_free[OF sq refl l dn this] show ?thesis
      unfolding R U .
  qed
  have 1: "reactions m' = Some R" by (simp add: m')
  have 2: "length R = 3 * length (nodes m)" using lR lF by simp
  have 3: "\<exists>K F. assemble_global_matrix m = Inr (K, F) \<and> R = vec_sub (mat_vec K U) F"
    using a R by blast
  have 4: "\<forall>d<length R. int d \<notin> set (constrained_dofs (supports m)) \<longrightarrow> R ! d = 0"
    using zero by blast
  have 5: "\<forall>d<length R. R ! d \<noteq> 0 \<longrightarrow> int d \<in> set (constrained_dofs (supports m))"
    using zero by blast
  show ?thesis
    using 1 2 3 4 5 by blast
qed

theorem exact_reactions_residual_witness:
  "reactions (fst (solve example_beam)) = Some [0, - 3, 0, 0, - 3, 0] \<and>
   constrained_dofs (supports example_beam) = [0, 1, 4] \<and>
   [0, - 3, 0, 0, - 3, 0 :: real] ! 2 = 0 \<and>
   [0, - 3, 0, 0, - 3, 0 :: real] ! 3 = 0 \<and>
   [0, - 3, 0, 0, - 3, 0 :: real] ! 5 = 0"
  using exact_reactions_residual [OF solve_example_beam] solve_example_beam
  by (simp add: example_beam_def constrained_dofs_def support_dofs_def)

subsection \<open>Symmetry of the assembled stiffness matrix\<close>

lemma mat_add_at_Inr:
  assumes "mat_add_at K i j v = Inr K'" and "square_mat n K"
  obtains a b where "py_index n i = Inr a" and "py_index n j = Inr b" and "a < n" and "b < n"
    and "K' = K[a := (K ! a)[b := K ! a ! b + v]]"
proof -
  have lK: "length K = n" using assms(2) by (simp add: square_mat_def)
  from assms(1) obtain a b where a: "py_index (length K) i = Inr a"
    and b: "py_index (length (K ! a)) j = Inr b"
    and K': "K' = K[a := (K ! a)[b := K ! a ! b + v]]"
    by (auto simp: mat_add_at_def split: sum.splits)
  have an: "a < n" using py_index_bound[OF a] lK by simp
  have la: "length (K ! a) = n" by (rule square_mat_nth[OF assms(2) an])
  have bn: "b < n" using py_index_bound[OF b] la by simp
  show ?thesis
    using that[of a b] a b an bn K' lK la by simp
qed

lemma mat_add_at_entry:
  assumes "mat_add_at K ri ci v = Inr K'" and "square_mat n K" and "i < n" and "j < n"
  shows "K' ! i ! j =
         K ! i ! j + (if py_index n ri = Inr i \<and> py_index n ci = Inr j then v else 0)"
proof -
  from assms(1,2) obtain a b where ab: "py_index n ri = Inr a" "py_index n ci = Inr b"
    "a < n" "b < n" and K': "K' = K[a := (K ! a)[b := K ! a ! b + v]]"
    by (rule mat_add_at_Inr)
  have lK: "length K = n" using assms(2) by (simp add: square_mat_def)
  have la: "length (K ! a) = n" by (rule square_mat_nth[OF assms(2) ab(3)])
  show ?thesis
  proof (cases "a = i")
    case True
    then show ?thesis
      using ab lK la assms(3,4) unfolding K' by (cases "b = j") simp_all
  next
    case False
    then show ?thesis
      using ab lK assms(3) unfolding K' by simp
  qed
qed

lemma mat_loop_square:
  assumes "square_mat n K"
    and "for_loop (\<lambda>x K. mat_add_at K (ri x) (ci x) (v x)) xs K = Inr K'"
  shows "square_mat n K'"
  using assms by (rule for_loop_invariant) (erule (1) mat_add_at_square)

lemma mat_loop_entry:
  "for_loop (\<lambda>x K. mat_add_at K (ri x) (ci x) (v x)) xs K = Inr K' \<Longrightarrow>
   square_mat n K \<Longrightarrow> i < n \<Longrightarrow> j < n \<Longrightarrow>
   K' ! i ! j =
     K ! i ! j +
     sum_list (map (\<lambda>x. if py_index n (ri x) = Inr i \<and> py_index n (ci x) = Inr j
                         then v x else 0) xs)"
proof (induction xs arbitrary: K)
  case Nil
  then show ?case by simp
next
  case (Cons x xs)
  from Cons.prems(1) obtain K1 where K1: "mat_add_at K (ri x) (ci x) (v x) = Inr K1"
    and rest: "for_loop (\<lambda>x K. mat_add_at K (ri x) (ci x) (v x)) xs K1 = Inr K'"
    by (auto split: sum.splits)
  have sq1: "square_mat n K1"
    by (rule mat_add_at_square[OF Cons.prems(2) K1])
  show ?case
    using Cons.IH[OF rest sq1 Cons.prems(3,4)]
      mat_add_at_entry[OF K1 Cons.prems(2,3,4)]
    by simp
qed

lemma nested_loop_square:
  assumes "square_mat n K"
    and "for_loop (\<lambda>m. for_loop (\<lambda>x K. mat_add_at K (ri m) (ci x) (v m x)) ns) ms K = Inr K'"
  shows "square_mat n K'"
  using assms by (rule for_loop_invariant) (erule (1) mat_loop_square)

lemma nested_loop_entry:
  "for_loop (\<lambda>m. for_loop (\<lambda>x K. mat_add_at K (ri m) (ci x) (v m x)) ns) ms K = Inr K' \<Longrightarrow>
   square_mat n K \<Longrightarrow> i < n \<Longrightarrow> j < n \<Longrightarrow>
   K' ! i ! j =
     K ! i ! j +
     sum_list (map (\<lambda>m. sum_list (map (\<lambda>x. if py_index n (ri m) = Inr i \<and> py_index n (ci x) = Inr j
                                             then v m x else 0) ns)) ms)"
proof (induction ms arbitrary: K)
  case Nil
  then show ?case by simp
next
  case (Cons m ms)
  from Cons.prems(1) obtain K1
    where K1: "for_loop (\<lambda>x K. mat_add_at K (ri m) (ci x) (v m x)) ns K = Inr K1"
    and rest: "for_loop (\<lambda>m. for_loop (\<lambda>x K. mat_add_at K (ri m) (ci x) (v m x)) ns) ms K1 = Inr K'"
    by (auto split: sum.splits)
  have sq1: "square_mat n K1"
    by (rule mat_loop_square[OF Cons.prems(2) K1])
  show ?case
    using Cons.IH[OF rest sq1 Cons.prems(3,4)]
      mat_loop_entry[OF K1 Cons.prems(2,3,4)]
    by simp
qed

lemma double_sum_symmetric:
  fixes k :: "nat \<Rightarrow> nat \<Rightarrow> real"
  assumes "\<And>m n. m < N \<Longrightarrow> n < N \<Longrightarrow> k m n = k n m"
  shows "sum_list (map (\<lambda>m. sum_list (map (\<lambda>n. if p m = i \<and> p n = j then k m n else 0) [0..<N])) [0..<N]) =
         sum_list (map (\<lambda>m. sum_list (map (\<lambda>n. if p m = j \<and> p n = i then k m n else 0) [0..<N])) [0..<N])"
proof -
  have "(\<Sum>m = 0..<N. \<Sum>n = 0..<N. if p m = i \<and> p n = j then k m n else 0) =
        (\<Sum>n = 0..<N. \<Sum>m = 0..<N. if p m = i \<and> p n = j then k m n else 0)"
    by (rule sum.swap)
  also have "\<dots> = (\<Sum>n = 0..<N. \<Sum>m = 0..<N. if p n = j \<and> p m = i then k n m else 0)"
    by (intro sum.cong refl) (auto simp: assms)
  finally show ?thesis
    by (simp add: interv_sum_list_conv_sum_set_nat)
qed

lemma stiffness_matrix_eq:
  "stiffness_matrix beam =
     (let L = beam_L beam; E = beam_E beam; A = beam_A beam; I = beam_I beam in
      [[E * A / L, 0, 0, - (E * A / L), 0, 0],
       [0, 12 * E * I / L ^ 3, 6 * E * I / L\<^sup>2, 0, - (12 * E * I / L ^ 3), 6 * E * I / L\<^sup>2],
       [0, 6 * E * I / L\<^sup>2, 4 * E * I / L, 0, - (6 * E * I / L\<^sup>2), 2 * E * I / L],
       [- (E * A / L), 0, 0, E * A / L, 0, 0],
       [0, - (12 * E * I / L ^ 3), - (6 * E * I / L\<^sup>2), 0, 12 * E * I / L ^ 3, - (6 * E * I / L\<^sup>2)],
       [0, 6 * E * I / L\<^sup>2, 2 * E * I / L, 0, - (6 * E * I / L\<^sup>2), 4 * E * I / L]])"
  by (simp add: stiffness_matrix_def zeros2_def zeros_def mat_set_def Let_def eval_nat_numeral)

lemma less_6_cases: "m < 6 \<Longrightarrow> m = 0 \<or> m = 1 \<or> m = 2 \<or> m = 3 \<or> m = 4 \<or> m = (5::nat)"
  by arith

lemma stiffness_matrix_symmetric:
  assumes "m < 6" and "n < 6"
  shows "stiffness_matrix beam ! m ! n = stiffness_matrix beam ! n ! m"
  using less_6_cases[OF assms(1)] less_6_cases[OF assms(2)]
  by (elim disjE) (simp_all add: stiffness_matrix_eq Let_def)

lemma assemble_element_nested:
  "assemble_element el K =
     for_loop (\<lambda>m. for_loop (\<lambda>n K. mat_add_at K (dof_map el ! m) (dof_map el ! n)
                                       (stiffness_matrix (beam_of el) ! m ! n)) [0..<6])
       [0..<6] K"
proof -
  have "scatter_row dm k = (\<lambda>m. for_loop (\<lambda>n K. mat_add_at K (dm ! m) (dm ! n) (k ! m ! n)) [0..<6])"
    for dm k
    by (intro ext) (simp add: scatter_row_def)
  then show ?thesis
    by (simp add: assemble_element_def Let_def)
qed

lemma assemble_element_symmetric:
  assumes sq: "square_mat n K" and sym: "\<forall>i<n. \<forall>j<n. K ! i ! j = K ! j ! i"
    and a: "assemble_element el K = Inr K'"
  shows "\<forall>i<n. \<forall>j<n. K' ! i ! j = K' ! j ! i"
proof (intro allI impI)
  fix i j
  assume i: "i < n" and j: "j < n"
  note nest = a[unfolded assemble_element_nested]
  let ?k = "\<lambda>m n. stiffness_matrix (beam_of el) ! m ! n"
  let ?p = "\<lambda>m. py_index n (dof_map el ! m)"
  have s: "sum_list (map (\<lambda>m. sum_list (map (\<lambda>x. if ?p m = Inr i \<and> ?p x = Inr j then ?k m x else 0) [0..<6])) [0..<6]) =
        sum_list (map (\<lambda>m. sum_list (map (\<lambda>x. if ?p m = Inr j \<and> ?p x = Inr i then ?k m x else 0) [0..<6])) [0..<6])"
    by (rule double_sum_symmetric) (rule stiffness_matrix_symmetric)
  show "K' ! i ! j = K' ! j ! i"
    unfolding nested_loop_entry[OF nest sq i j] nested_loop_entry[OF nest sq j i] s
    using sym i j by simp
qed

lemma assemble_elements_symmetric:
  assumes "square_mat n K \<and> (\<forall>i<n. \<forall>j<n. K ! i ! j = K ! j ! i)"
    and "for_loop assemble_element els K = Inr K'"
  shows "square_mat n K' \<and> (\<forall>i<n. \<forall>j<n. K' ! i ! j = K' ! j ! i)"
  using assms
proof (rule for_loop_invariant)
  fix x t t'
  assume "square_mat n t \<and> (\<forall>i<n. \<forall>j<n. t ! i ! j = t ! j ! i)" and "assemble_element x t = Inr t'"
  then show "square_mat n t' \<and> (\<forall>i<n. \<forall>j<n. t' ! i ! j = t' ! j ! i)"
    using assemble_element_square assemble_element_symmetric by blast
qed

lemma zeros2_nth: "i < n \<Longrightarrow> j < n \<Longrightarrow> zeros2 n n ! i ! j = 0"
  by (simp add: zeros2_def zeros_def)

lemma assemble_example_beam:
  "assemble_global_matrix example_beam =
     Inr ([[1 / 2, 0, 0, - (1 / 2), 0, 0],
           [0, 3 / 2, 3 / 2, 0, - (3 / 2), 3 / 2],
           [0, 3 / 2, 2, 0, - (3 / 2), 1],
           [- (1 / 2), 0, 0, 1 / 2, 0, 0],
           [0, - (3 / 2), - (3 / 2), 0, 3 / 2, - (3 / 2)],
           [0, 3 / 2, 1, 0, - (3 / 2), 2]],
          [0, 3, 1, 0, 3, - 1])"
  unfolding example_beam_def by code_simp

text \<open>
  C2. For every model whose elements have positive length and on which assembly
  succeeds (every node and element reference is inside its list), the assembled global
  stiffness matrix is a \<open>3N\<close> by \<open>3N\<close> array and is symmetric: \<open>K[i][j] = K[j][i]\<close> for
  all degrees of freedom \<open>i\<close>, \<open>j\<close>.
\<close>

theorem global_stiffness_symmetric:
  assumes "assemble_global_matrix m = Inr (K, F)"
    and "\<forall>el\<in>set (elements m). 0 < el_length el"
  shows "square_mat (3 * length (nodes m)) K \<and>
         (\<forall>i<3 * length (nodes m). \<forall>j<3 * length (nodes m). K ! i ! j = K ! j ! i)"
proof -
  let ?n = "length (nodes m) * 3"
  have "square_mat ?n (zeros2 ?n ?n) \<and> (\<forall>i<?n. \<forall>j<?n. zeros2 ?n ?n ! i ! j = zeros2 ?n ?n ! j ! i)"
    by (simp add: square_mat_zeros2 zeros2_nth)
  then have "square_mat ?n K \<and> (\<forall>i<?n. \<forall>j<?n. K ! i ! j = K ! j ! i)"
    using assemble_global_matrix_Inr(1)[OF assms(1)] by (rule assemble_elements_symmetric)
  then show ?thesis
    by (simp add: mult.commute)
qed

theorem global_stiffness_symmetric_witness:
  "(0 :: real) < 2 \<and>
   square_mat 6 [[1 / 2, 0, 0, - (1 / 2), 0, 0],
           [0, 3 / 2, 3 / 2, 0, - (3 / 2), 3 / 2],
           [0, 3 / 2, 2, 0, - (3 / 2), 1],
           [- (1 / 2), 0, 0, 1 / 2, 0, 0],
           [0, - (3 / 2), - (3 / 2), 0, 3 / 2, - (3 / 2)],
           [0, 3 / 2, 1, 0, - (3 / 2), 2 :: real]]"
  using global_stiffness_symmetric [OF assemble_example_beam]
  by (simp add: example_beam_def)

subsection \<open>Singular systems\<close>

lemma upt_6: "[0..<6] = [0, 1, 2, 3, 4, 5 :: nat]"
  by code_simp

lemma dot_update_left:
  "length row = length y \<Longrightarrow> b < length row \<Longrightarrow>
   dot (row[b := row ! b + v]) y = dot row y + v * y ! b"
proof (induction row y arbitrary: b rule: list_induct2)
  case Nil
  then show ?case by simp
next
  case (Cons a row u y)
  then show ?case by (cases b) (simp_all add: algebra_simps)
qed

lemma mat_add_at_dot:
  assumes "mat_add_at K ri ci v = Inr K'" and "square_mat n K" and "length y = n" and "r < n"
  shows "dot (K' ! r) y =
         dot (K ! r) y + (if py_index n ri = Inr r then v * y ! projr (py_index n ci) else 0)"
proof -
  from assms(1,2) obtain a b where ab: "py_index n ri = Inr a" "py_index n ci = Inr b"
    "a < n" "b < n" and K': "K' = K[a := (K ! a)[b := K ! a ! b + v]]"
    by (rule mat_add_at_Inr)
  have lK: "length K = n" using assms(2) by (simp add: square_mat_def)
  have la: "length (K ! a) = n" by (rule square_mat_nth[OF assms(2) ab(3)])
  show ?thesis
  proof (cases "a = r")
    case True
    have "dot ((K ! a)[b := K ! a ! b + v]) y = dot (K ! a) y + v * y ! b"
      by (rule dot_update_left) (simp_all add: la assms(3) ab(4))
    then show ?thesis
      using True ab lK assms(4) unfolding K' by simp
  next
    case False
    then show ?thesis
      using ab lK assms(4) unfolding K' by simp
  qed
qed

lemma mat_loop_dot:
  "for_loop (\<lambda>x K. mat_add_at K (ri x) (ci x) (v x)) xs K = Inr K' \<Longrightarrow>
   square_mat n K \<Longrightarrow> length y = n \<Longrightarrow> r < n \<Longrightarrow>
   dot (K' ! r) y =
     dot (K ! r) y +
     sum_list (map (\<lambda>x. if py_index n (ri x) = Inr r
                         then v x * y ! projr (py_index n (ci x)) else 0) xs)"
proof (induction xs arbitrary: K)
  case Nil
  then show ?case by simp
next
  case (Cons x xs)
  from Cons.prems(1) obtain K1 where K1: "mat_add_at K (ri x) (ci x) (v x) = Inr K1"
    and rest: "for_loop (\<lambda>x K. mat_add_at K (ri x) (ci x) (v x)) xs K1 = Inr K'"
    by (auto split: sum.splits)
  have sq1: "square_mat n K1"
    by (rule mat_add_at_square[OF Cons.prems(2) K1])
  show ?case
    using Cons.IH[OF rest sq1 Cons.prems(3,4)]
      mat_add_at_dot[OF K1 Cons.prems(2,3,4)]
    by simp
qed

lemma mat_loop_valid:
  "for_loop (\<lambda>x K. mat_add_at K (ri x) (ci x) (v x)) xs K = Inr K' \<Longrightarrow>
   square_mat n K \<Longrightarrow> x \<in> set xs \<Longrightarrow>
   \<exists>a b. py_index n (ri x) = Inr a \<and> py_index n (ci x) = Inr b \<and> a < n \<and> b < n"
proof (induction xs arbitrary: K)
  case Nil
  then show ?case by simp
next
  case (Cons z xs)
  from Cons.prems(1) obtain K1 where K1: "mat_add_at K (ri z) (ci z) (v z) = Inr K1"
    and rest: "for_loop (\<lambda>x K. mat_add_at K (ri x) (ci x) (v x)) xs K1 = Inr K'"
    by (auto split: sum.splits)
  have sq1: "square_mat n K1"
    by (rule mat_add_at_square[OF Cons.prems(2) K1])
  show ?case
  proof (cases "x = z")
    case True
    from K1 Cons.prems(2) show ?thesis
      unfolding True by (rule mat_add_at_Inr) blast
  next
    case False
    then have "x \<in> set xs" using Cons.prems(3) by simp
    then show ?thesis by (rule Cons.IH[OF rest sq1])
  qed
qed

lemma py_index_dof_mod:
  assumes "py_index (N * 3) (node * 3 + c) = Inr b" and "0 \<le> c" and "c < 3"
  shows "b mod 3 = nat c"
proof -
  have "int b = node * 3 + c \<or> int b = int (N * 3) + (node * 3 + c)"
    using assms(1) by (auto simp: py_index_def split: if_splits)
  then have "int b mod 3 = c"
    using assms(2,3) by auto
  then have "int (b mod 3) = c"
    by (simp add: zmod_int)
  then show ?thesis
    by (metis nat_int)
qed

lemma dof_map_nth:
  assumes "x < 6"
  shows "\<exists>node c. dof_map el ! x = node * 3 + c \<and> 0 \<le> c \<and> c < 3 \<and> nat c = x mod 3"
proof -
  obtain n1 n2 where n: "el_nodes el = (n1, n2)"
    by (cases "el_nodes el")
  have dm: "dof_map el = [n1 * 3 + 0, n1 * 3 + 1, n1 * 3 + 2, n2 * 3 + 0, n2 * 3 + 1, n2 * 3 + 2]"
    by (simp add: dof_map_def n)
  from less_6_cases[OF assms] show ?thesis
    unfolding dm
    by (elim disjE) (simp_all, (rule exI[of _ n1] exI[of _ n2], simp)+)
qed

lemma axial_translation_nth:
  "b < n \<Longrightarrow> axial_translation n ! b = (if b mod 3 = 0 then 1 else 0)"
  by (simp add: axial_translation_def)

lemma length_axial_translation: "length (axial_translation n) = n"
  by (simp add: axial_translation_def)

lemma stiffness_matrix_axial:
  assumes "m < 6"
  shows "stiffness_matrix beam ! m ! 0 + stiffness_matrix beam ! m ! 3 = 0"
    and "length (stiffness_matrix beam ! m) = 6"
  using less_6_cases[OF assms]
  by (auto simp: stiffness_matrix_eq Let_def)

lemma sum_list_if_const:
  "sum_list (map (\<lambda>x. if c then f x else (0 :: real)) xs) = (if c then sum_list (map f xs) else 0)"
  by (induction xs) simp_all

lemma dot_replicate_zero_left: "dot (replicate n 0) y = 0"
proof (induction n arbitrary: y)
  case 0
  then show ?case by simp
next
  case (Suc n)
  then show ?case by (cases y) simp_all
qed

lemma scatter_row_axial:
  assumes sq: "square_mat (N * 3) K"
    and inv: "\<forall>r<N * 3. dot (K ! r) (axial_translation (N * 3)) = 0"
    and s: "scatter_row (dof_map el) (stiffness_matrix beam) m K = Inr K'"
    and m: "m < 6"
  shows "\<forall>r<N * 3. dot (K' ! r) (axial_translation (N * 3)) = 0"
proof (intro allI impI)
  fix r
  assume r: "r < N * 3"
  let ?y = "axial_translation (N * 3)"
  let ?k = "stiffness_matrix beam"
  note loop = s[unfolded scatter_row_def]
  have val: "?y ! projr (py_index (N * 3) (dof_map el ! x)) = (if x mod 3 = 0 then 1 else 0)"
    if x: "x < 6" for x
  proof -
    have "x \<in> set [0..<6]" using x by simp
    from mat_loop_valid[OF loop sq this]
    obtain b where b: "py_index (N * 3) (dof_map el ! x) = Inr b" "b < N * 3"
      by auto
    obtain node c where c: "dof_map el ! x = node * 3 + c" "0 \<le> c" "c < 3" "nat c = x mod 3"
      using dof_map_nth[OF x] by blast
    have "b mod 3 = x mod 3"
      using py_index_dof_mod[of N node c b] b(1) c by simp
    then show ?thesis
      using b by (simp add: axial_translation_nth)
  qed
  have "sum_list (map (\<lambda>x. ?k ! m ! x * ?y ! projr (py_index (N * 3) (dof_map el ! x))) [0..<6]) =
        ?k ! m ! 0 + ?k ! m ! 3"
    unfolding upt_6 by (simp add: val)
  also have "\<dots> = 0"
    by (rule stiffness_matrix_axial(1)[OF m])
  finally have z: "sum_list (map (\<lambda>x. if py_index (N * 3) (dof_map el ! m) = Inr r
                         then ?k ! m ! x * ?y ! projr (py_index (N * 3) (dof_map el ! x)) else 0) [0..<6]) = 0"
    by (simp add: sum_list_if_const)
  show "dot (K' ! r) ?y = 0"
    unfolding mat_loop_dot[OF loop sq length_axial_translation r] z
    using inv r by simp
qed

lemma assemble_element_axial:
  assumes "square_mat (N * 3) K \<and> (\<forall>r<N * 3. dot (K ! r) (axial_translation (N * 3)) = 0)"
    and "assemble_element el K = Inr K'"
  shows "square_mat (N * 3) K' \<and> (\<forall>r<N * 3. dot (K' ! r) (axial_translation (N * 3)) = 0)"
  using assms(1) assms(2)[unfolded assemble_element_def Let_def]
proof (rule for_loop_invariant)
  fix x t t'
  assume x: "x \<in> set [0..<6]"
    and t: "square_mat (N * 3) t \<and> (\<forall>r<N * 3. dot (t ! r) (axial_translation (N * 3)) = 0)"
    and s: "scatter_row (dof_map el) (stiffness_matrix (beam_of el)) x t = Inr t'"
  have x6: "x < 6" using x by simp
  show "square_mat (N * 3) t' \<and> (\<forall>r<N * 3. dot (t' ! r) (axial_translation (N * 3)) = 0)"
    using scatter_row_square[OF _ s] scatter_row_axial[OF _ _ s x6] t by blast
qed

lemma assemble_elements_axial:
  assumes "square_mat (N * 3) K \<and> (\<forall>r<N * 3. dot (K ! r) (axial_translation (N * 3)) = 0)"
    and "for_loop assemble_element els K = Inr K'"
  shows "square_mat (N * 3) K' \<and> (\<forall>r<N * 3. dot (K' ! r) (axial_translation (N * 3)) = 0)"
  using assms by (rule for_loop_invariant) (erule (1) assemble_element_axial)

lemma assemble_axial_null:
  assumes "assemble_global_matrix m = Inr (K, F)"
  shows "\<forall>row\<in>set K. dot row (axial_translation (length K)) = 0"
proof -
  let ?N = "length (nodes m)"
  have "square_mat (?N * 3) (zeros2 (?N * 3) (?N * 3)) \<and>
      (\<forall>r<?N * 3. dot (zeros2 (?N * 3) (?N * 3) ! r) (axial_translation (?N * 3)) = 0)"
    by (simp add: square_mat_zeros2) (simp add: zeros2_def zeros_def dot_replicate_zero_left)
  then have K: "square_mat (?N * 3) K \<and> (\<forall>r<?N * 3. dot (K ! r) (axial_translation (?N * 3)) = 0)"
    using assemble_global_matrix_Inr(1)[OF assms] by (rule assemble_elements_axial)
  then have lK: "length K = ?N * 3" by (simp add: square_mat_def)
  show ?thesis
    using K unfolding lK by (auto simp: in_set_conv_nth lK)
qed

lemma assemble_element_pos:
  assumes "assemble_element el K = Inr K'" and "square_mat n K"
  shows "0 < n"
proof -
  from assms(1)[unfolded assemble_element_nested upt_6]
  obtain K1 where K1: "for_loop (\<lambda>n K. mat_add_at K (dof_map el ! 0) (dof_map el ! n)
      (stiffness_matrix (beam_of el) ! 0 ! n)) [0, 1, 2, 3, 4, 5] K = Inr K1"
    by (auto split: sum.splits)
  have "(0 :: nat) \<in> set [0, 1, 2, 3, 4, 5]" by simp
  from mat_loop_valid[OF K1 assms(2) this] show ?thesis by auto
qed

lemma assemble_nonempty_pos:
  assumes "assemble_global_matrix m = Inr (K, F)" and "elements m \<noteq> []"
  shows "0 < length K"
proof -
  obtain el els where els: "elements m = el # els"
    using assms(2) by (cases "elements m") auto
  let ?n = "length (nodes m) * 3"
  from assemble_global_matrix_Inr(1)[OF assms(1)] obtain K1
    where "assemble_element el (zeros2 ?n ?n) = Inr K1"
    unfolding els by (auto split: sum.splits)
  then have "0 < ?n"
    using square_mat_zeros2 by (rule assemble_element_pos)
  then show ?thesis
    using assemble_dims(1)[OF assms(1)] by (simp add: square_mat_def)
qed

lemma submatrix_all:
  assumes "square_mat n K"
  shows "submatrix K (map int [0..<n]) (map int [0..<n]) = K"
proof -
  have lK: "length K = n" using assms by (simp add: square_mat_def)
  have "map (\<lambda>j. K ! i ! j) [0..<n] = K ! i" if "i < n" for i
    using square_mat_nth[OF assms that] by (metis map_nth)
  then have "map (\<lambda>i. map (\<lambda>j. K ! i ! j) [0..<n]) [0..<n] = map (\<lambda>i. K ! i) [0..<n]"
    by (intro map_cong refl) simp
  also have "\<dots> = K"
    using lK by (metis map_nth)
  finally show ?thesis
    by (simp add: submatrix_def comp_def)
qed

lemma free_dofs_Nil: "free_dofs [] n = map int [0..<n]"
  by (simp add: free_dofs_def)

lemma axial_translation_nonzero: "0 < n \<Longrightarrow> axial_translation n \<noteq> replicate n 0"
proof
  assume n: "0 < n" and "axial_translation n = replicate n 0"
  then have "axial_translation n ! 0 = replicate n (0 :: real) ! 0" by simp
  then show False using n by (simp add: axial_translation_nth)
qed

lemma solve_singular:
  assumes "assemble_global_matrix m = Inr (K, F)"
    and "apply_boundary_conditions m K F = (K_reduced, F_reduced, free_dof)"
    and "length ys = length K_reduced" and "ys \<noteq> replicate (length K_reduced) 0"
    and "\<forall>row\<in>set K_reduced. dot row ys = 0"
  shows "solve m = (m, Inl LinAlgError)"
proof -
  have "linalg_solve K_reduced F_reduced = Inl LinAlgError"
    by (rule linalg_solve_singular[OF assms(3,4,5)])
  then show ?thesis
    by (simp add: solve_def assms(1,2))
qed

lemma solve_unsupported:
  assumes a: "assemble_global_matrix m = Inr (K, F)" and "elements m \<noteq> []" and "supports m = []"
  shows "solve m = (m, Inl LinAlgError)"
proof -
  have lF: "length F = 3 * length (nodes m)" by (rule assemble_dims(2)[OF a])
  have sq: "square_mat (length F) K" using assemble_dims(1)[OF a] lF by simp
  have lK: "length K = length F" using sq by (simp add: square_mat_def)
  have bc: "apply_boundary_conditions m K F = (K, subvector F (map int [0..<length F]), map int [0..<length F])"
    by (simp add: apply_boundary_conditions_eq assms(3) free_dofs_Nil submatrix_all[OF sq])
  show ?thesis
  proof (rule solve_singular[OF a bc])
    show "length (axial_translation (length K)) = length K"
      by (rule length_axial_translation)
    show "axial_translation (length K) \<noteq> replicate (length K) 0"
      by (rule axial_translation_nonzero[OF assemble_nonempty_pos[OF a assms(2)]])
    show "\<forall>row\<in>set K. dot row (axial_translation (length K)) = 0"
      by (rule assemble_axial_null[OF a])
  qed
qed

lemma solve_error_state: "snd (solve m) = Inl e \<Longrightarrow> fst (solve m) = m"
  by (auto simp: solve_def Let_def split: sum.splits prod.splits)

text \<open>
  In exact arithmetic only. With the exact elimination for the solver, a reduced
  stiffness matrix that sends a nonzero vector \<open>ys\<close> to zero makes \<open>solve\<close> raise
  \<open>LinAlgError\<close>; in particular a model with at least one element and no support raises
  (the assembled matrix sends the rigid translation along the axis to zero). In float64
  the pivots of such a matrix need not be exactly zero, and numpy then returns instead
  of raising, so this is not a statement about the program's \<open>solve\<close>. The last conjunct
  is independent of the solver: whenever \<open>solve\<close> raises, the model is left exactly as it
  was, since \<open>displacements\<close> and \<open>reactions\<close> are assigned after everything that can
  raise.
\<close>

theorem exact_singular_system_raises:
  "(assemble_global_matrix m = Inr (K, F) \<and>
    apply_boundary_conditions m K F = (K_reduced, F_reduced, free_dof) \<and>
    length ys = length K_reduced \<and> ys \<noteq> replicate (length K_reduced) 0 \<and>
    (\<forall>row\<in>set K_reduced. dot row ys = 0)
      \<longrightarrow> solve m = (m, Inl LinAlgError)) \<and>
   (elements m \<noteq> [] \<and> supports m = []
      \<longrightarrow> (\<exists>e. solve m = (m, Inl e)) \<and>
          (\<forall>K F. assemble_global_matrix m = Inr (K, F) \<longrightarrow> solve m = (m, Inl LinAlgError))) \<and>
   (\<forall>e. snd (solve m) = Inl e \<longrightarrow> fst (solve m) = m)"
proof (intro conjI impI allI)
  assume "assemble_global_matrix m = Inr (K, F) \<and>
    apply_boundary_conditions m K F = (K_reduced, F_reduced, free_dof) \<and>
    length ys = length K_reduced \<and> ys \<noteq> replicate (length K_reduced) 0 \<and>
    (\<forall>row\<in>set K_reduced. dot row ys = 0)"
  then show "solve m = (m, Inl LinAlgError)"
    using solve_singular by blast
next
  assume h: "elements m \<noteq> [] \<and> supports m = []"
  show "\<exists>e. solve m = (m, Inl e)"
  proof (cases "assemble_global_matrix m")
    case (Inl e)
    then show ?thesis by (simp add: solve_def)
  next
    case (Inr KF)
    then obtain K' F' where "assemble_global_matrix m = Inr (K', F')"
      by (cases KF) simp
    then have "solve m = (m, Inl LinAlgError)"
      using h by (intro solve_unsupported) simp_all
    then show ?thesis by blast
  qed
next
  fix K' F'
  assume "elements m \<noteq> [] \<and> supports m = []" and "assemble_global_matrix m = Inr (K', F')"
  then show "solve m = (m, Inl LinAlgError)"
    by (intro solve_unsupported) simp_all
next
  fix e
  assume "snd (solve m) = Inl e"
  then show "fst (solve m) = m"
    by (rule solve_error_state)
qed

lemma assemble_ignores_supports:
  "assemble_global_matrix (m\<lparr>supports := s\<rparr>) = assemble_global_matrix m"
proof -
  have "nodes (m\<lparr>supports := s\<rparr>) = nodes m" "elements (m\<lparr>supports := s\<rparr>) = elements m"
    "loads (m\<lparr>supports := s\<rparr>) = loads m"
    by simp_all
  then show ?thesis
    by (simp only: assemble_global_matrix_def)
qed

theorem exact_singular_system_raises_witness:
  "elements (example_beam\<lparr>supports := []\<rparr>) \<noteq> [] \<and>
   supports (example_beam\<lparr>supports := []\<rparr>) = [] \<and>
   solve (example_beam\<lparr>supports := []\<rparr>) = (example_beam\<lparr>supports := []\<rparr>, Inl LinAlgError) \<and>
   fst (solve (example_beam\<lparr>supports := []\<rparr>)) = example_beam\<lparr>supports := []\<rparr>"
proof -
  have a: "assemble_global_matrix (example_beam\<lparr>supports := []\<rparr>) =
     Inr ([[1 / 2, 0, 0, - (1 / 2), 0, 0],
           [0, 3 / 2, 3 / 2, 0, - (3 / 2), 3 / 2],
           [0, 3 / 2, 2, 0, - (3 / 2), 1],
           [- (1 / 2), 0, 0, 1 / 2, 0, 0],
           [0, - (3 / 2), - (3 / 2), 0, 3 / 2, - (3 / 2)],
           [0, 3 / 2, 1, 0, - (3 / 2), 2]],
          [0, 3, 1, 0, 3, - 1])"
    by (simp only: assemble_ignores_supports assemble_example_beam)
  have e: "elements (example_beam\<lparr>supports := []\<rparr>) \<noteq> []"
    by (simp add: example_beam_def)
  show ?thesis
    using exact_singular_system_raises [where m = "example_beam\<lparr>supports := []\<rparr>"] a e
    by simp
qed

end
